theory Spec2Isabelle
  imports Complex_Main
begin

section \<open>Stimulus timing of the flicker toolbox (src/flicker\_core.py)\<close>

text \<open>
  The five functions of \<^verbatim>\<open>flicker_core.py\<close> are embedded as HOL functions. Python's
  unbounded integers are \<^typ>\<open>int\<close>. Python's floats are IEEE doubles; a double is
  embedded as the \<^typ>\<open>real\<close> number it stands for. Where the source divides or
  multiplies floats and the result is returned or handed to \<^verbatim>\<open>round\<close>
  (\<^verbatim>\<open>calculate_frequencies\<close>, \<^verbatim>\<open>calculate_cycle_params\<close>), the exact result is rounded to
  the nearest double by \<open>to_double\<close>, as the hardware does. The sum in the last assertion
  of \<^verbatim>\<open>calculate_frequencies\<close> is kept exact (for a rate below \<open>2 ^ 53\<close> the comparison on
  doubles has the same outcome), and so are the coordinates of \<^verbatim>\<open>generate_positions\<close>,
  whose theorems speak of positions up to the representation error of a double. Every
  exception the source can raise is a value of \<open>py_error\<close>, and a function that can raise
  returns \<open>py_error + 'a\<close>.
\<close>

subsection \<open>Exceptions\<close>

text \<open>
  The four \<^verbatim>\<open>assert\<close> statements of \<^verbatim>\<open>calculate_frequencies\<close> raise
  \<^verbatim>\<open>AssertionError\<close> with an f-string message. A message is kept as its fixed text (the
  constructor) and the value the f-string interpolates (the argument).
\<close>

datatype assert_msg =
    RefreshRateMustBeBiggerThanZero real
  | MinFramesPerCycleMustBeBiggerThanZero int
  | NStimMustBeBiggerThanZero int
  | TooManyStimuliMaximumIs real

datatype py_error =
    AssertionError assert_msg
  | ZeroDivisionError
  | ValueError

subsection \<open>Python built-ins\<close>

text \<open>\<^verbatim>\<open>int(x)\<close> on a float truncates towards zero.\<close>

definition py_int :: "real \<Rightarrow> int" where
  "py_int x = (if 0 \<le> x then \<lfloor>x\<rfloor> else \<lceil>x\<rceil>)"

text \<open>\<^verbatim>\<open>range(a, b)\<close> and \<^verbatim>\<open>range(b)\<close>: the integers from \<open>a\<close> up to \<open>b - 1\<close>.\<close>

definition py_range2 :: "int \<Rightarrow> int \<Rightarrow> int list" where
  "py_range2 a b = [a..b - 1]"

definition py_range :: "int \<Rightarrow> int list" where
  "py_range b = py_range2 0 b"

text \<open>
  \<^verbatim>\<open>round(x)\<close> on a float returns the nearest integer, a tie going to the even
  neighbour.
\<close>

definition py_round :: "real \<Rightarrow> int" where
  "py_round x =
     (let f = \<lfloor>x\<rfloor>; d = x - of_int f
      in if d < 1 / 2 then f
         else if 1 / 2 < d then f + 1
         else if even f then f else f + 1)"

subsection \<open>Double-precision arithmetic\<close>

text \<open>
  A double has 53 significant bits. The result of a float operation is the exact result
  rounded to the nearest double, a tie going to the even significand. For \<open>x\<close> with
  \<open>2 ^ e \<le> |x| < 2 ^ (e + 1)\<close> the doubles around \<open>x\<close> are the multiples of \<open>2 ^ (e - 52)\<close>,
  so \<open>x\<close> is divided by that unit, rounded to an integer with ties to even, and
  multiplied by the unit again. The exponent \<open>e\<close> is read off the bit length of the integer part of \<open>|x|\<close>, or of
  \<open>1 / |x|\<close> below 1. The exponent range is not bounded: the model agrees with the hardware
  as long as the result is neither subnormal nor an overflow (from \<open>2 ^ - 1022\<close> up to
  \<open>2 ^ 1024\<close>).
\<close>

fun bit_length :: "nat \<Rightarrow> nat" where
  "bit_length n = (if n = 0 then 0 else Suc (bit_length (n div 2)))"

declare bit_length.simps [simp del]

definition binary_exponent :: "real \<Rightarrow> int" where
  "binary_exponent x =
     (if 1 \<le> \<bar>x\<bar> then int (bit_length (nat \<lfloor>\<bar>x\<bar>\<rfloor>)) - 1
      else - int (bit_length (nat (\<lceil>1 / \<bar>x\<bar>\<rceil> - 1))))"

definition to_double :: "real \<Rightarrow> real" where
  "to_double x =
     (if x = 0 then 0
      else
        (let ulp = 2 powi (binary_exponent x - 52)
         in of_int (py_round (x / ulp)) * ulp))"

text \<open>\<^verbatim>\<open>xs[:n]\<close>: a negative \<open>n\<close> counts from the end.\<close>

definition py_slice_to :: "'a list \<Rightarrow> int \<Rightarrow> 'a list" where
  "py_slice_to xs n =
     (if 0 \<le> n then take (nat n) xs else take (length xs - nat (- n)) xs)"

subsection \<open>calculate\_frequencies\<close>

text \<open>
  Each frequency \<^verbatim>\<open>refresh_rate / d\<close> is a float division, so the list holds the quotients
  rounded to doubles.
\<close>

definition calculate_frequencies :: "real \<Rightarrow> int \<Rightarrow> int \<Rightarrow> py_error + real list" where
  "calculate_frequencies refresh_rate min_frames_per_cycle n_stim =
     (if \<not> refresh_rate > 0 then
        Inl (AssertionError (RefreshRateMustBeBiggerThanZero refresh_rate))
      else if \<not> min_frames_per_cycle > 0 then
        Inl (AssertionError (MinFramesPerCycleMustBeBiggerThanZero min_frames_per_cycle))
      else if \<not> n_stim > 0 then
        Inl (AssertionError (NStimMustBeBiggerThanZero n_stim))
      else if \<not> (refresh_rate - of_int min_frames_per_cycle + 1) \<ge> of_int n_stim then
        Inl (AssertionError
               (TooManyStimuliMaximumIs (refresh_rate - of_int min_frames_per_cycle + 1)))
      else
        (let divisors = py_range2 min_frames_per_cycle (py_int refresh_rate + 1);
             stable_freqs = map (\<lambda>d. to_double (refresh_rate / of_int d)) divisors
         in Inr (py_slice_to stable_freqs n_stim)))"

subsection \<open>calculate\_cycle\_params\<close>

text \<open>
  \<^verbatim>\<open>refresh_rate / freq\<close> raises \<^verbatim>\<open>ZeroDivisionError\<close> when \<open>freq\<close> is zero. The quotient and
  the product \<^verbatim>\<open>frames_per_cycle * duty_cycle\<close> are doubles when \<^verbatim>\<open>round\<close> receives them;
  \<^verbatim>\<open>round\<close> itself is exact.
\<close>

definition calculate_cycle_params :: "real \<Rightarrow> real \<Rightarrow> real \<Rightarrow> py_error + (int \<times> int)" where
  "calculate_cycle_params refresh_rate freq duty_cycle =
     (if freq = 0 then Inl ZeroDivisionError
      else
        (let frames_per_cycle = py_round (to_double (refresh_rate / freq));
             on_frames = py_round (to_double (of_int frames_per_cycle * duty_cycle));
             on_frames = max 1 (min on_frames (frames_per_cycle - 1))
         in Inr (frames_per_cycle, on_frames)))"

subsection \<open>generate\_frame\_pattern\<close>

text \<open>
  The loop over \<^verbatim>\<open>range(total_frames)\<close>, with the list \<open>pattern\<close> it appends to.
  \<^verbatim>\<open>frameN % frames_per_cycle\<close> raises when \<open>frames_per_cycle\<close> is zero; otherwise
  Python's \<^verbatim>\<open>%\<close> is the floored remainder, which is \<open>mod\<close> on \<^typ>\<open>int\<close>.
\<close>

fun frame_loop :: "int \<Rightarrow> int \<Rightarrow> int list \<Rightarrow> int list \<Rightarrow> py_error + int list" where
  "frame_loop frames_per_cycle on_frames [] pattern = Inr pattern"
| "frame_loop frames_per_cycle on_frames (frameN # rest) pattern =
     (if frames_per_cycle = 0 then Inl ZeroDivisionError
      else
        (let cycle_pos = frameN mod frames_per_cycle
         in frame_loop frames_per_cycle on_frames rest
              (pattern @ [if cycle_pos < on_frames then 1 else 0])))"

definition generate_frame_pattern :: "int \<Rightarrow> int \<Rightarrow> int \<Rightarrow> py_error + int list" where
  "generate_frame_pattern frames_per_cycle on_frames total_frames =
     frame_loop frames_per_cycle on_frames (py_range total_frames) []"

subsection \<open>generate\_positions\<close>

text \<open>
  \<^verbatim>\<open>math.sqrt\<close> raises \<^verbatim>\<open>ValueError\<close> on a negative argument, and \<^verbatim>\<open>n_stim / cols\<close> raises
  \<^verbatim>\<open>ZeroDivisionError\<close> when \<open>cols\<close> is zero. The inner loop over the columns stops at its
  \<^verbatim>\<open>break\<close>; the outer loop over the rows goes on to the next row.
\<close>

fun col_loop ::
  "int \<Rightarrow> int \<Rightarrow> int \<Rightarrow> real \<Rightarrow> real \<Rightarrow> int \<Rightarrow> int list \<Rightarrow> (real \<times> real) list
     \<Rightarrow> (real \<times> real) list" where
  "col_loop n_stim cols rows spacing_x spacing_y r [] positions = positions"
| "col_loop n_stim cols rows spacing_x spacing_y r (c # rest) positions =
     (if int (length positions) = n_stim then positions
      else
        (let x = (of_int c - (of_int cols - 1) / 2) * spacing_x;
             y = ((of_int rows - 1) / 2 - of_int r) * spacing_y
         in col_loop n_stim cols rows spacing_x spacing_y r rest (positions @ [(x, y)])))"

fun row_loop ::
  "int \<Rightarrow> int \<Rightarrow> int \<Rightarrow> real \<Rightarrow> real \<Rightarrow> int list \<Rightarrow> (real \<times> real) list
     \<Rightarrow> (real \<times> real) list" where
  "row_loop n_stim cols rows spacing_x spacing_y [] positions = positions"
| "row_loop n_stim cols rows spacing_x spacing_y (r # rest) positions =
     row_loop n_stim cols rows spacing_x spacing_y rest
       (col_loop n_stim cols rows spacing_x spacing_y r (py_range cols) positions)"

definition generate_positions :: "int \<Rightarrow> py_error + (real \<times> real) list" where
  "generate_positions n_stim =
     (if n_stim < 0 then Inl ValueError
      else
        (let cols = \<lceil>sqrt (of_int n_stim)\<rceil>
         in if cols = 0 then Inl ZeroDivisionError
            else
              (let rows = \<lceil>of_int n_stim / (of_int cols :: real)\<rceil>;
                   spacing_x = (if cols > 1 then 1 / (of_int cols - 1) else 0);
                   spacing_y = (if rows > 1 then 1 / (of_int rows - 1) else 0)
               in Inr (row_loop n_stim cols rows spacing_x spacing_y (py_range rows) []))))"

subsection \<open>calculate\_m\_sequences\<close>

text \<open>
  Modelled from the spec: \<^verbatim>\<open>np.roll\<close> is numpy's. It rotates cyclically: the element at
  index \<open>i\<close> moves to index \<open>(i + shift) mod n\<close>, so the last \<open>shift mod n\<close> elements come
  first.
\<close>

definition np_roll :: "'a list \<Rightarrow> int \<Rightarrow> 'a list" where
  "np_roll a shift =
     (if a = [] then []
      else
        (let n = length a; k = nat (shift mod int n)
         in drop (n - k) a @ take (n - k) a))"

text \<open>
  Modelled from the spec: \<^verbatim>\<open>max_len_seq\<close> is imported from scipy.signal and its source is
  not in the repository. The spec asks for a fixed-tap linear-feedback construction of
  length \<open>2 ^ nbits - 1\<close>; the model is the library's shift register on a ring buffer: the
  register starts as all ones, each step outputs the cell at \<open>idx\<close>, replaces it by its
  exclusive-or with the cells at the tap offsets, and advances \<open>idx\<close>; the register is
  returned rotated by \<open>- idx\<close>. The tap table has
  the library's entries for registers of two to seven bits; the library raises
  \<^verbatim>\<open>ValueError\<close> for a width it has no taps for. Bits are the integers 0 and 1.
\<close>

definition bit_xor :: "int \<Rightarrow> int \<Rightarrow> int" where
  "bit_xor a b = (if a = b then 0 else 1)"

definition mls_taps :: "nat \<Rightarrow> nat list option" where
  "mls_taps nbits = map_of [(2, [1]), (3, [2]), (4, [3]), (5, [3]), (6, [5]), (7, [6])] nbits"

fun mls_loop :: "nat \<Rightarrow> nat list \<Rightarrow> nat \<Rightarrow> int list \<Rightarrow> nat \<Rightarrow> int list \<Rightarrow> int list \<times> int list" where
  "mls_loop nbits taps 0 state idx seq = (seq, np_roll state (- int idx))"
| "mls_loop nbits taps (Suc k) state idx seq =
     (let feedback = state ! idx;
          seq = seq @ [feedback];
          feedback = fold (\<lambda>t fb. bit_xor fb (state ! ((t + idx) mod nbits))) taps feedback;
          state = state[idx := feedback];
          idx = (idx + 1) mod nbits
      in mls_loop nbits taps k state idx seq)"

definition max_len_seq :: "nat \<Rightarrow> py_error + (int list \<times> int list)" where
  "max_len_seq nbits =
     (case mls_taps nbits of
        None \<Rightarrow> Inl ValueError
      | Some taps \<Rightarrow> Inr (mls_loop nbits taps (2 ^ nbits - 1) (replicate nbits 1) 0 []))"

text \<open>
  The loop over \<^verbatim>\<open>range(n_stim)\<close> with the list \<open>patterns\<close> it appends to. The call of
  \<^verbatim>\<open>logging.info\<close> writes a log line and changes nothing else; it is left out.
\<close>

fun shift_loop :: "int list \<Rightarrow> int \<Rightarrow> int list \<Rightarrow> int list list \<Rightarrow> int list list" where
  "shift_loop base_seq shift_step [] patterns = patterns"
| "shift_loop base_seq shift_step (s # rest) patterns =
     (let shift = s * shift_step;
          shifted_seq = np_roll base_seq shift
      in shift_loop base_seq shift_step rest (patterns @ [shifted_seq]))"

definition calculate_m_sequences :: "int \<Rightarrow> py_error + int list list" where
  "calculate_m_sequences n_stim =
     (let nbits = 6; shift_step = 4
      in case max_len_seq nbits of
           Inl e \<Rightarrow> Inl e
         | Inr (base_seq, state) \<Rightarrow> Inr (shift_loop base_seq shift_step (py_range n_stim) []))"

subsection \<open>Windows of a periodic sequence\<close>

text \<open>
  The spec's maximal-length property speaks of the windows of \<open>k\<close> consecutive bits of
  one period: the window at position \<open>i\<close> reads \<open>k\<close> bits from \<open>i\<close> on, wrapping around
  the end of the sequence.
\<close>

definition cyclic_window :: "'a list \<Rightarrow> nat \<Rightarrow> nat \<Rightarrow> 'a list" where
  "cyclic_window xs k i = map (\<lambda>j. xs ! ((i + j) mod length xs)) [0..<k]"

definition cyclic_windows :: "'a list \<Rightarrow> nat \<Rightarrow> 'a list list" where
  "cyclic_windows xs k = map (cyclic_window xs k) [0..<length xs]"

text \<open>The 63 bits that \<^verbatim>\<open>max_len_seq(nbits=6)\<close> computes (lemma \<open>max_len_seq_6\<close>).\<close>

definition mls6 :: "int list" where
  "mls6 = [1, 1, 1, 1, 1, 1, 0, 1, 0, 1, 0, 1, 1, 0, 0, 1, 1, 0, 1, 1, 1, 0, 1,
       1, 0, 1, 0, 0, 1, 0, 0, 1, 1, 1, 0, 0, 0, 1, 0, 1, 1, 1, 1, 0, 0, 1,
       0, 1, 0, 0, 0, 1, 1, 0, 0, 0, 0, 1, 0, 0, 0, 0, 0]"

subsection \<open>The layout as the spec words it\<close>

text \<open>
  The spec gives the grid in closed form: \<open>cols = ceil(sqrt(n_stim))\<close>,
  \<open>rows = ceil(n_stim / cols)\<close>, a spacing of \<open>1 / (k - 1)\<close> along an axis of \<open>k\<close> cells
  (0 for a single cell), and the position at row \<open>r\<close> and column \<open>c\<close>. These definitions
  follow those words; the theorems compare the loops of \<^verbatim>\<open>generate_positions\<close> with them.
\<close>

definition grid_pos :: "int \<Rightarrow> int \<Rightarrow> real \<Rightarrow> real \<Rightarrow> int \<Rightarrow> int \<Rightarrow> real \<times> real" where
  "grid_pos cols rows spacing_x spacing_y r c =
     ((of_int c - (of_int cols - 1) / 2) * spacing_x,
      ((of_int rows - 1) / 2 - of_int r) * spacing_y)"

definition grid_cols :: "int \<Rightarrow> int" where
  "grid_cols n_stim = \<lceil>sqrt (of_int n_stim)\<rceil>"

definition grid_rows :: "int \<Rightarrow> int" where
  "grid_rows n_stim = \<lceil>of_int n_stim / (of_int (grid_cols n_stim) :: real)\<rceil>"

definition grid_spacing :: "int \<Rightarrow> real" where
  "grid_spacing k = (if k = 1 then 0 else 1 / (of_int k - 1))"

definition spec_position :: "int \<Rightarrow> int \<Rightarrow> int \<Rightarrow> real \<times> real" where
  "spec_position n_stim r c =
     grid_pos (grid_cols n_stim) (grid_rows n_stim)
       (grid_spacing (grid_cols n_stim)) (grid_spacing (grid_rows n_stim)) r c"

subsection \<open>The spec's error kinds\<close>

text \<open>
  The spec's \<open>InvalidParameter\<close> is the failure of a precondition check on a single
  argument, naming that argument. In the source these are the first three assertions of
  \<^verbatim>\<open>calculate_frequencies\<close>; the arithmetic exceptions of Python are not parameter checks.
\<close>

definition is_invalid_parameter :: "py_error \<Rightarrow> bool" where
  "is_invalid_parameter e =
     (case e of
        AssertionError (RefreshRateMustBeBiggerThanZero _) \<Rightarrow> True
      | AssertionError (MinFramesPerCycleMustBeBiggerThanZero _) \<Rightarrow> True
      | AssertionError (NStimMustBeBiggerThanZero _) \<Rightarrow> True
      | _ \<Rightarrow> False)"

section \<open>Properties\<close>

subsection \<open>Ranges\<close>

lemma py_range_length: "length (py_range n) = nat n"
  by (simp add: py_range_def py_range2_def)

lemma py_range_nth: "k < nat n \<Longrightarrow> py_range n ! k = int k"
  by (simp add: py_range_def py_range2_def)

lemma py_range2_length: "length (py_range2 a b) = nat (b - a)"
  by (simp add: py_range2_def)

lemma py_range2_nth: "k < nat (b - a) \<Longrightarrow> py_range2 a b ! k = a + int k"
  by (simp add: py_range2_def)

subsection \<open>The frame pattern\<close>

lemma frame_loop_map:
  "frames_per_cycle \<noteq> 0 \<Longrightarrow>
   frame_loop frames_per_cycle on_frames xs pattern =
     Inr (pattern @ map (\<lambda>i. if i mod frames_per_cycle < on_frames then 1 else 0) xs)"
  by (induction xs arbitrary: pattern) simp_all

text \<open>
  Claim C4. For \<open>frames_per_cycle \<ge> 1\<close>, any \<open>on_frames\<close> and \<open>total_frames \<ge> 0\<close> (a multiple
  of \<open>frames_per_cycle\<close> or not), \<^verbatim>\<open>generate_frame_pattern\<close> returns a list of length
  \<open>total_frames\<close> whose element at index \<open>i\<close> is 1 when \<open>i mod frames_per_cycle < on_frames\<close>
  and 0 otherwise; for (6, 3, 12) it returns \<open>[1,1,1,0,0,0,1,1,1,0,0,0]\<close>.
\<close>

theorem generate_frame_pattern_spec:
  assumes "1 \<le> frames_per_cycle" and "0 \<le> total_frames"
  shows "(\<exists>pattern.
            generate_frame_pattern frames_per_cycle on_frames total_frames = Inr pattern \<and>
            int (length pattern) = total_frames \<and>
            (\<forall>i. 0 \<le> i \<and> i < total_frames \<longrightarrow>
                 pattern ! nat i = (if i mod frames_per_cycle < on_frames then 1 else 0))) \<and>
         generate_frame_pattern 6 3 12 = Inr [1, 1, 1, 0, 0, 0, 1, 1, 1, 0, 0, 0]"
proof -
  let ?bit = "\<lambda>i. if i mod frames_per_cycle < on_frames then 1 else (0::int)"
  let ?p = "map ?bit (py_range total_frames)"
  from assms have run: "generate_frame_pattern frames_per_cycle on_frames total_frames = Inr ?p"
    by (simp add: generate_frame_pattern_def frame_loop_map)
  have len: "int (length ?p) = total_frames"
    using assms by (simp add: py_range_length)
  have nth: "?p ! nat i = ?bit i" if "0 \<le> i \<and> i < total_frames" for i
    using that by (simp add: py_range_length py_range_nth)
  have ex: "generate_frame_pattern 6 3 12 = Inr [1, 1, 1, 0, 0, 0, 1, 1, 1, 0, 0, 0]"
    by (simp add: generate_frame_pattern_def py_range_def py_range2_def upto.simps)
  from run len nth ex show ?thesis by blast
qed

theorem generate_frame_pattern_spec_witness:
  "\<exists>pattern.
      generate_frame_pattern 4 1 6 = Inr pattern \<and>
      int (length pattern) = 6 \<and>
      pattern ! nat 4 = 1 \<and> pattern ! nat 5 = 0"
proof -
  have h1: "(1::int) \<le> 4" and h2: "(0::int) \<le> 6" by simp_all
  from generate_frame_pattern_spec [OF h1 h2, of 1] obtain pattern where
    run: "generate_frame_pattern 4 1 6 = Inr pattern" and
    len: "int (length pattern) = 6" and
    nth: "\<forall>i. 0 \<le> i \<and> i < 6 \<longrightarrow> pattern ! nat i = (if i mod 4 < 1 then 1 else 0)"
    by blast
  from nth [rule_format, of 4] have "pattern ! nat 4 = 1" by simp
  moreover from nth [rule_format, of 5] have "pattern ! nat 5 = 0" by simp
  ultimately show ?thesis using run len by blast
qed

subsection \<open>Rounding to doubles\<close>

lemma py_round_nearest: "\<bar>of_int (py_round x) - x\<bar> \<le> 1 / 2"
  unfolding py_round_def Let_def by (auto simp add: abs_le_iff)

lemma py_round_tie_even: "x - of_int \<lfloor>x\<rfloor> = 1 / 2 \<Longrightarrow> even (py_round x)"
  by (simp add: py_round_def Let_def)

lemma bit_length_bounds:
  "0 < n \<Longrightarrow> 2 ^ (bit_length n - 1) \<le> n \<and> n < 2 ^ bit_length n"
proof (induction n rule: bit_length.induct)
  case (1 n)
  show ?case
  proof (cases "n div 2 = 0")
    case True
    with 1 have "n = 1" by (simp add: div_eq_0_iff)
    then show ?thesis by (simp add: bit_length.simps)
  next
    case False
    with 1 have IH: "2 ^ (bit_length (n div 2) - 1) \<le> n div 2 \<and> n div 2 < 2 ^ bit_length (n div 2)"
      by simp
    from False have pos: "0 < bit_length (n div 2)" by (simp add: bit_length.simps [of "n div 2"])
    from 1 have bl: "bit_length n = Suc (bit_length (n div 2))" by (simp add: bit_length.simps [of n])
    from pos have "(2::nat) ^ bit_length (n div 2) = 2 * 2 ^ (bit_length (n div 2) - 1)"
      by (cases "bit_length (n div 2)") simp_all
    with IH have "2 ^ bit_length (n div 2) \<le> n" by linarith
    moreover from IH have "n < 2 * 2 ^ bit_length (n div 2)" by linarith
    ultimately show ?thesis by (simp add: bl)
  qed
qed

lemma binary_exponent_bounds:
  assumes "x \<noteq> 0"
  shows "2 powi binary_exponent x \<le> \<bar>x\<bar> \<and> \<bar>x\<bar> < 2 powi (binary_exponent x + 1)"
proof (cases "1 \<le> \<bar>x\<bar>")
  case True
  define n where "n = nat \<lfloor>\<bar>x\<bar>\<rfloor>"
  from True have n: "0 < n" by (simp add: n_def)
  have e: "binary_exponent x = int (bit_length n) - 1"
    using True by (simp add: binary_exponent_def n_def)
  from bit_length_bounds [OF n] have lo: "2 ^ (bit_length n - 1) \<le> n" and hi: "n < 2 ^ bit_length n"
    by simp_all
  from hi n have bpos: "0 < bit_length n" by (cases "bit_length n") simp_all
  have fl: "real n \<le> \<bar>x\<bar>" and fu: "\<bar>x\<bar> < real n + 1"
    using True by (simp_all add: n_def)
  from lo have "(2::real) ^ (bit_length n - 1) \<le> real n"
    by (metis of_nat_le_iff of_nat_numeral of_nat_power)
  with fl have a: "(2::real) ^ (bit_length n - 1) \<le> \<bar>x\<bar>" by linarith
  from hi have "n + 1 \<le> 2 ^ bit_length n" by simp
  then have "real (n + 1) \<le> 2 ^ bit_length n"
    by (metis of_nat_le_iff of_nat_numeral of_nat_power)
  with fu have b: "\<bar>x\<bar> < (2::real) ^ bit_length n" by simp
  have p1: "(2::real) powi (int (bit_length n) - 1) = 2 ^ (bit_length n - 1)"
    using bpos by (simp add: power_int_def nat_diff_distrib')
  have p2: "(2::real) powi (int (bit_length n) - 1 + 1) = 2 ^ bit_length n"
    by (simp add: power_int_def)
  from a b show ?thesis by (simp only: e p1 p2)
next
  case False
  define n where "n = nat (\<lceil>1 / \<bar>x\<bar>\<rceil> - 1)"
  from False assms have inv: "1 < 1 / \<bar>x\<bar>" by simp
  then have c: "2 \<le> \<lceil>1 / \<bar>x\<bar>\<rceil>" using assms by (simp add: le_ceiling_iff)
  then have n: "0 < n" unfolding n_def by linarith
  from c have nn: "int n = \<lceil>1 / \<bar>x\<bar>\<rceil> - 1" unfolding n_def by linarith
  have e: "binary_exponent x = - int (bit_length n)"
    using False by (simp add: binary_exponent_def n_def)
  from bit_length_bounds [OF n] have lo: "2 ^ (bit_length n - 1) \<le> n" and hi: "n < 2 ^ bit_length n"
    by simp_all
  from hi n have bpos: "0 < bit_length n" by (cases "bit_length n") simp_all
  have "real_of_int (\<lceil>1 / \<bar>x\<bar>\<rceil> - 1) < 1 / \<bar>x\<bar>" by linarith
  with nn have l1: "real n < 1 / \<bar>x\<bar>" by (metis of_int_of_nat_eq)
  have "1 / \<bar>x\<bar> \<le> real_of_int \<lceil>1 / \<bar>x\<bar>\<rceil>" by (rule le_of_int_ceiling)
  with nn have u1: "1 / \<bar>x\<bar> \<le> real n + 1"
    by (metis add.commute diff_add_cancel of_int_1 of_int_add of_int_of_nat_eq add.commute)
  from lo have "(2::real) ^ (bit_length n - 1) \<le> real n"
    by (metis of_nat_le_iff of_nat_numeral of_nat_power)
  with l1 have a: "(2::real) ^ (bit_length n - 1) < 1 / \<bar>x\<bar>" by linarith
  from hi have "n + 1 \<le> 2 ^ bit_length n" by simp
  then have "real (n + 1) \<le> 2 ^ bit_length n"
    by (metis of_nat_le_iff of_nat_numeral of_nat_power)
  with u1 have b: "1 / \<bar>x\<bar> \<le> (2::real) ^ bit_length n" by simp
  from assms have xp: "0 < \<bar>x\<bar>" by simp
  from b xp have b': "1 / (2::real) ^ bit_length n \<le> \<bar>x\<bar>"
    by (simp add: field_simps)
  from a xp have a': "\<bar>x\<bar> < 1 / (2::real) ^ (bit_length n - 1)"
    by (simp add: field_simps)
  have p1: "(2::real) powi (- int (bit_length n)) = 1 / 2 ^ bit_length n"
    by (simp add: power_int_def field_simps)
  have p2: "(2::real) powi (- int (bit_length n) + 1) = 1 / 2 ^ (bit_length n - 1)"
    using bpos by (cases "bit_length n") (simp_all add: power_int_def field_simps nat_add_distrib)
  from a' b' show ?thesis by (simp only: e p1 p2)
qed

text \<open>Rounding to a double changes a number by at most the fraction \<open>2 ^ - 53\<close> of it.\<close>

lemma to_double_error: "\<bar>to_double x - x\<bar> \<le> \<bar>x\<bar> / 2 ^ 53"
proof (cases "x = 0")
  case True
  then show ?thesis by (simp add: to_double_def)
next
  case False
  define p :: real where "p = 2 powi (binary_exponent x - 52)"
  have p: "0 < p" by (simp add: p_def)
  have "p * 2 ^ 52 = 2 powi (binary_exponent x - 52) * 2 powi 52" by (simp add: p_def)
  also have "\<dots> = 2 powi (binary_exponent x - 52 + 52)"
    by (rule power_int_add [symmetric]) simp
  finally have scale: "p * 2 ^ 52 = 2 powi binary_exponent x" by simp
  from binary_exponent_bounds [OF False] scale have lo: "p * 2 ^ 52 \<le> \<bar>x\<bar>" by simp
  have val: "to_double x = of_int (py_round (x / p)) * p"
    using False by (simp add: to_double_def Let_def p_def)
  have "to_double x - x = (of_int (py_round (x / p)) - x / p) * p"
    using p by (simp add: val field_simps)
  then have "\<bar>to_double x - x\<bar> = \<bar>of_int (py_round (x / p)) - x / p\<bar> * p"
    using p by (simp add: abs_mult)
  also have "\<dots> \<le> (1 / 2) * p"
    using p py_round_nearest [of "x / p"] by (intro mult_right_mono) simp_all
  also have "\<dots> \<le> \<bar>x\<bar> / 2 ^ 53"
    using lo by simp
  finally show ?thesis .
qed

lemma abs_diff_leD:
  fixes a b e :: real
  shows "\<bar>a - b\<bar> \<le> e \<Longrightarrow> b - e \<le> a \<and> a \<le> b + e"
  by (auto simp add: abs_le_iff)

lemma abs_diff_leI:
  fixes a b e :: real
  shows "b - e \<le> a \<Longrightarrow> a \<le> b + e \<Longrightarrow> \<bar>a - b\<bar> \<le> e"
  by (auto simp add: abs_le_iff)

lemma to_double_bounds:
  assumes "0 < x"
  shows "x * (1 - 1 / 2 ^ 53) \<le> to_double x \<and> to_double x \<le> x * (1 + 1 / 2 ^ 53)"
proof -
  from assms have "\<bar>x\<bar> = x" by simp
  with to_double_error [of x] have "\<bar>to_double x - x\<bar> \<le> x / 2 ^ 53" by (simp only:)
  then have "x - x / 2 ^ 53 \<le> to_double x \<and> to_double x \<le> x + x / 2 ^ 53"
    by (rule abs_diff_leD)
  moreover have "x * (1 - 1 / 2 ^ 53) = x - x / 2 ^ 53" by (simp add: algebra_simps)
  moreover have "x * (1 + 1 / 2 ^ 53) = x + x / 2 ^ 53" by (simp add: algebra_simps)
  ultimately show ?thesis by (simp only:)
qed

lemma to_double_pos: "0 < x \<Longrightarrow> 0 < to_double x"
proof -
  assume x: "0 < x"
  then have "0 < x * (1 - 1 / 2 ^ 53)" by simp
  with to_double_bounds [OF x] show ?thesis by linarith
qed

text \<open>
  Two quotients of the same rate by divisors that differ by at least one stay apart
  after rounding, as long as the divisors do not exceed \<open>2 ^ 52\<close>.
\<close>

lemma to_double_quotients_decrease:
  assumes r: "0 < r" and a: "0 < a" and ab: "a + 1 \<le> b" and b: "b \<le> 2 ^ 52"
  shows "to_double (r / b) < to_double (r / a)"
proof -
  from a ab have bp: "0 < b" by simp
  have lin: "a * (1 + 1 / 2 ^ 53) < b * (1 - 1 / 2 ^ 53)"
    using a ab b by simp
  from r lin have "r * (a * (1 + 1 / 2 ^ 53)) < r * (b * (1 - 1 / 2 ^ 53))"
    by (rule mult_strict_left_mono [rotated])
  then have "(r / b) * (1 + 1 / 2 ^ 53) < (r / a) * (1 - 1 / 2 ^ 53)"
    using a bp by (simp add: field_simps)
  moreover from r bp have "to_double (r / b) \<le> (r / b) * (1 + 1 / 2 ^ 53)"
    using to_double_bounds [of "r / b"] by simp
  moreover from r a have "(r / a) * (1 - 1 / 2 ^ 53) \<le> to_double (r / a)"
    using to_double_bounds [of "r / a"] by simp
  ultimately show ?thesis by linarith
qed

text \<open>
  Dividing the rate by a rounded quotient returns the divisor up to the fraction
  \<open>2 ^ - 52\<close> of it.
\<close>

lemma quotient_recovered:
  assumes r: "0 < r" and d: "0 < d"
  shows "\<bar>r / to_double (r / d) - d\<bar> \<le> d / 2 ^ 52"
proof -
  define f where "f = to_double (r / d)"
  from r d have x: "0 < r / d" by simp
  from to_double_bounds [OF x] have lo: "(r / d) * (1 - 1 / 2 ^ 53) \<le> f"
    and hi: "f \<le> (r / d) * (1 + 1 / 2 ^ 53)" by (simp_all add: f_def)
  from to_double_pos [OF x] have f: "0 < f" by (simp add: f_def)
  from lo d have lo': "r * (1 - 1 / 2 ^ 53) \<le> f * d" by (simp add: field_simps)
  from hi d have hi': "f * d \<le> r * (1 + 1 / 2 ^ 53)" by (simp add: field_simps)
  have up: "r \<le> f * (d + d / 2 ^ 52)"
  proof -
    have "r \<le> r * (1 - 1 / 2 ^ 53) * (1 + 1 / 2 ^ 52)" using r by simp
    also have "\<dots> \<le> (f * d) * (1 + 1 / 2 ^ 52)" using lo' by (intro mult_right_mono) simp_all
    finally show ?thesis by (simp add: algebra_simps)
  qed
  have down: "f * (d - d / 2 ^ 52) \<le> r"
  proof -
    have "f * (d - d / 2 ^ 52) = (f * d) * (1 - 1 / 2 ^ 52)" by (simp add: algebra_simps)
    also have "\<dots> \<le> (r * (1 + 1 / 2 ^ 53)) * (1 - 1 / 2 ^ 52)"
      using hi' by (intro mult_right_mono) simp_all
    also have "\<dots> \<le> r" using r by simp
    finally show ?thesis .
  qed
  from up f have "r / f \<le> d + d / 2 ^ 52" by (simp add: field_simps)
  moreover from down f have "d - d / 2 ^ 52 \<le> r / f" by (simp add: field_simps)
  ultimately show ?thesis unfolding f_def by (intro abs_diff_leI)
qed

text \<open>A number strictly between two neighbouring integers is no integer.\<close>

lemma between_integers:
  fixes v :: real
  assumes "of_int k < v" and "v < of_int k + 1"
  shows "v \<notin> \<int>"
proof
  assume "v \<in> \<int>"
  then obtain j where j: "v = of_int j" by (rule Ints_cases)
  from assms(1) have "k < j" unfolding j by (simp only: of_int_less_iff)
  moreover from assms(2) have "real_of_int j < real_of_int (k + 1)" unfolding j by simp
  then have "j < k + 1" by (simp only: of_int_less_iff)
  ultimately show False by simp
qed

text \<open>The doubles the examples of this theory meet.\<close>

lemma to_double_one: "to_double 1 = 1"
  by code_simp

lemma to_double_half: "to_double (1 / 2) = 1 / 2"
  by code_simp

lemma to_double_three_tenths: "to_double (3 / 10) = 5404319552844595 / 2 ^ 54"
  by code_simp

lemma to_double_seven_tenths: "to_double (7 / 10) = 3152519739159347 / 2 ^ 52"
  by code_simp

lemma to_double_sixty_thirteenths: "to_double (60 / 13) = 2598230554252209 / 2 ^ 49"
  by code_simp

subsection \<open>Frequency selection\<close>

lemma calculate_frequencies_run:
  assumes "0 < r" and "0 < m" and "0 < n" and "of_int n \<le> r - of_int m + 1"
  shows "calculate_frequencies r m n =
           Inr (map (\<lambda>i. to_double (r / of_int (m + int i))) [0..<nat n])"
proof -
  from assms have fl: "n + m - 1 \<le> \<lfloor>r\<rfloor>"
    by (simp add: le_floor_iff)
  let ?ds = "py_range2 m (py_int r + 1)"
  from assms have pi: "py_int r = \<lfloor>r\<rfloor>" by (simp add: py_int_def)
  have len: "nat n \<le> length ?ds"
    using fl pi by (simp add: py_range2_length)
  have "take (nat n) (map (\<lambda>d. to_double (r / of_int d)) ?ds) =
        map (\<lambda>i. to_double (r / of_int (m + int i))) [0..<nat n]"
  proof (rule nth_equalityI)
    show "length (take (nat n) (map (\<lambda>d. to_double (r / real_of_int d)) ?ds)) =
          length (map (\<lambda>i. to_double (r / real_of_int (m + int i))) [0..<nat n])"
      using len by simp
  next
    fix i assume "i < length (take (nat n) (map (\<lambda>d. to_double (r / real_of_int d)) ?ds))"
    then have i: "i < nat n" by simp
    with len have "i < nat (py_int r + 1 - m)" by (simp add: py_range2_length)
    then have "?ds ! i = m + int i" by (rule py_range2_nth)
    with i len show "take (nat n) (map (\<lambda>d. to_double (r / real_of_int d)) ?ds) ! i =
        map (\<lambda>i. to_double (r / real_of_int (m + int i))) [0..<nat n] ! i"
      by simp
  qed
  with assms show ?thesis
    by (simp add: calculate_frequencies_def py_slice_to_def Let_def)
qed

text \<open>
  Claim C1 asks that the refresh rate divided by each returned frequency is an integer,
  and that the frequencies strictly decrease. The frequencies are doubles: for
  (60, 3, 11) the last one is 60 / 13 rounded, and 60 divided by it is not 13, neither
  exactly nor as the double the division yields, which is \<open>13 + 2 ^ - 49\<close> (Python prints
  13.000000000000002). And for a rate of \<open>2 ^ 60\<close> with a minimum cycle of \<open>2 ^ 59\<close> frames
  the first two frequencies are both the double 2.
\<close>

theorem calculate_frequencies_not_integral:
  "(\<exists>fs. calculate_frequencies 60 3 11 = Inr fs \<and>
         fs ! 10 = to_double (60 / 13) \<and>
         60 / (fs ! 10) \<notin> \<int> \<and>
         to_double (60 / (fs ! 10)) = 13 + 1 / 2 ^ 49) \<and>
   (\<exists>gs. calculate_frequencies (2 ^ 60) (2 ^ 59) 2 = Inr gs \<and> gs ! 0 = 2 \<and> gs ! 1 = 2)"
proof -
  let ?fs = "map (\<lambda>i. to_double (60 / of_int (3 + int i))) [0..<nat 11]"
  have run: "calculate_frequencies 60 3 11 = Inr ?fs"
    by (rule calculate_frequencies_run) simp_all
  have f10: "?fs ! 10 = to_double (60 / 13)" by simp
  have quot: "60 / to_double (60 / 13) = (60 * 2 ^ 49) / 2598230554252209"
    by (simp add: to_double_sixty_thirteenths)
  have "60 / to_double (60 / 13) \<notin> \<int>"
  proof (rule between_integers)
    show "real_of_int 13 < 60 / to_double (60 / 13)" unfolding quot by simp
    show "60 / to_double (60 / 13) < real_of_int 13 + 1" unfolding quot by simp
  qed
  with f10 have nonint: "60 / (?fs ! 10) \<notin> \<int>" by metis
  have "to_double ((60 * 2 ^ 49) / 2598230554252209) = 13 + 1 / 2 ^ 49" by code_simp
  with f10 quot have again: "to_double (60 / (?fs ! 10)) = 13 + 1 / 2 ^ 49" by metis
  let ?gs = "map (\<lambda>i. to_double (2 ^ 60 / of_int (2 ^ 59 + int i))) [0..<nat 2]"
  have grun: "calculate_frequencies (2 ^ 60) (2 ^ 59) 2 = Inr ?gs"
    by (rule calculate_frequencies_run) simp_all
  have g0: "to_double (2 ^ 60 / of_int (2 ^ 59 + int 0)) = 2" by code_simp
  have g1: "to_double (2 ^ 60 / of_int (2 ^ 59 + int 1)) = 2" by code_simp
  have gs0: "?gs ! 0 = 2" using g0 by (simp add: eval_nat_numeral)
  have gs1: "?gs ! 1 = 2" using g1 by (simp add: eval_nat_numeral)
  from run f10 nonint again have A: "\<exists>fs. calculate_frequencies 60 3 11 = Inr fs \<and>
         fs ! 10 = to_double (60 / 13) \<and>
         60 / (fs ! 10) \<notin> \<int> \<and>
         to_double (60 / (fs ! 10)) = 13 + 1 / 2 ^ 49"
    by blast
  from grun gs0 gs1 have B: "\<exists>gs. calculate_frequencies (2 ^ 60) (2 ^ 59) 2 = Inr gs \<and>
         gs ! 0 = 2 \<and> gs ! 1 = 2"
    by blast
  from A B show ?thesis by (rule conjI)
qed

text \<open>
  Claim C1, as the source has it. For a refresh rate \<open>r > 0\<close>, integers \<open>m > 0\<close> and \<open>n > 0\<close>
  with \<open>r - m + 1 \<ge> n\<close>, \<^verbatim>\<open>calculate_frequencies\<close> returns exactly \<open>n\<close> frequencies, the
  \<open>i\<close>-th (from 0) being \<open>r / (m + i)\<close> rounded to the nearest double, within the fraction
  \<open>2 ^ - 53\<close> of the exact quotient. The values are positive and strictly decreasing as
  long as the divisors do not exceed \<open>2 ^ 52\<close>, and \<open>r\<close> divided by the \<open>i\<close>-th frequency is
  the integer \<open>m + i\<close> up to the fraction \<open>2 ^ - 52\<close> of it.
\<close>

theorem calculate_frequencies_spec:
  assumes "0 < r" and "0 < m" and "0 < n" and "of_int n \<le> r - of_int m + 1"
  shows "\<exists>fs. calculate_frequencies r m n = Inr fs \<and>
            int (length fs) = n \<and>
            (\<forall>i. 0 \<le> i \<and> i < n \<longrightarrow>
                 fs ! nat i = to_double (r / of_int (m + i)) \<and>
                 \<bar>fs ! nat i - r / of_int (m + i)\<bar> \<le> r / of_int (m + i) / 2 ^ 53 \<and>
                 0 < fs ! nat i \<and>
                 \<bar>r / (fs ! nat i) - of_int (m + i)\<bar> \<le> of_int (m + i) / 2 ^ 52) \<and>
            (\<forall>i j. 0 \<le> i \<and> i < j \<and> j < n \<and> m + j \<le> 2 ^ 52 \<longrightarrow>
                 fs ! nat j < fs ! nat i)"
proof -
  let ?fs = "map (\<lambda>i. to_double (r / of_int (m + int i))) [0..<nat n]"
  have run: "calculate_frequencies r m n = Inr ?fs"
    using assms by (rule calculate_frequencies_run)
  have len: "int (length ?fs) = n" using assms by simp
  have elt: "?fs ! nat i = to_double (r / of_int (m + i)) \<and>
             \<bar>?fs ! nat i - r / of_int (m + i)\<bar> \<le> r / of_int (m + i) / 2 ^ 53 \<and>
             0 < ?fs ! nat i \<and>
             \<bar>r / (?fs ! nat i) - of_int (m + i)\<bar> \<le> of_int (m + i) / 2 ^ 52"
    if "0 \<le> i \<and> i < n" for i
  proof -
    from that have v: "?fs ! nat i = to_double (r / of_int (m + i))" by simp
    from that assms have d: "0 < real_of_int (m + i)" by simp
    with assms have x: "0 < r / real_of_int (m + i)" by simp
    then have "\<bar>r / real_of_int (m + i)\<bar> = r / real_of_int (m + i)" by (rule abs_of_pos)
    with to_double_error [of "r / real_of_int (m + i)"]
    have e: "\<bar>to_double (r / of_int (m + i)) - r / of_int (m + i)\<bar> \<le> r / of_int (m + i) / 2 ^ 53"
      by (simp only:)
    from x have p: "0 < to_double (r / of_int (m + i))" by (rule to_double_pos)
    from assms(1) d have b: "\<bar>r / to_double (r / of_int (m + i)) - of_int (m + i)\<bar> \<le> of_int (m + i) / 2 ^ 52"
      by (rule quotient_recovered)
    from e p b show ?thesis by (simp only: v)
  qed
  have dec: "?fs ! nat j < ?fs ! nat i" if "0 \<le> i \<and> i < j \<and> j < n \<and> m + j \<le> 2 ^ 52" for i j
  proof -
    from that have vi: "?fs ! nat i = to_double (r / of_int (m + i))"
      and vj: "?fs ! nat j = to_double (r / of_int (m + j))" by simp_all
    from that assms have a: "0 < real_of_int (m + i)" by simp
    from that have "m + i + 1 \<le> m + j" by simp
    then have "real_of_int (m + i + 1) \<le> real_of_int (m + j)" by (simp only: of_int_le_iff)
    then have ab: "real_of_int (m + i) + 1 \<le> real_of_int (m + j)" by simp
    from that have "real_of_int (m + j) \<le> real_of_int (2 ^ 52)" by (simp only: of_int_le_iff)
    then have b: "real_of_int (m + j) \<le> 2 ^ 52" by simp
    from assms(1) a ab b have "to_double (r / of_int (m + j)) < to_double (r / of_int (m + i))"
      by (rule to_double_quotients_decrease)
    then show ?thesis by (simp only: vi vj)
  qed
  from run len elt dec show ?thesis by blast
qed

theorem calculate_frequencies_spec_witness:
  "\<exists>fs. calculate_frequencies 60 3 11 = Inr fs \<and> int (length fs) = 11 \<and>
        fs ! nat 0 = 20 \<and> fs ! nat 10 = 2598230554252209 / 2 ^ 49 \<and>
        \<bar>60 / (fs ! nat 10) - 13\<bar> \<le> 13 / 2 ^ 52 \<and>
        fs ! nat 10 < fs ! nat 9"
proof -
  have h1: "(0::real) < 60" and h2: "(0::int) < 3" and h3: "(0::int) < 11"
    and h4: "of_int 11 \<le> (60::real) - of_int 3 + 1" by simp_all
  from calculate_frequencies_spec [OF h1 h2 h3 h4] obtain fs where
    run: "calculate_frequencies 60 3 11 = Inr fs" and
    len: "int (length fs) = 11" and
    elt: "\<forall>i. 0 \<le> i \<and> i < 11 \<longrightarrow>
             fs ! nat i = to_double (60 / of_int (3 + i)) \<and>
             \<bar>fs ! nat i - 60 / of_int (3 + i)\<bar> \<le> 60 / of_int (3 + i) / 2 ^ 53 \<and>
             0 < fs ! nat i \<and>
             \<bar>60 / (fs ! nat i) - of_int (3 + i)\<bar> \<le> of_int (3 + i) / 2 ^ 52" and
    dec: "\<forall>i j. 0 \<le> i \<and> i < j \<and> j < 11 \<and> 3 + j \<le> 2 ^ 52 \<longrightarrow> fs ! nat j < fs ! nat i"
    by blast
  have twenty: "to_double 20 = 20" by code_simp
  have "0 \<le> (0::int) \<and> (0::int) < 11" by simp
  from elt [rule_format, OF this] twenty have f0: "fs ! nat 0 = 20" by simp
  have "0 \<le> (10::int) \<and> (10::int) < 11" by simp
  from elt [rule_format, OF this]
  have f10: "fs ! nat 10 = to_double (60 / of_int (3 + 10))"
    and b10: "\<bar>60 / (fs ! nat 10) - of_int (3 + 10)\<bar> \<le> of_int (3 + 10) / 2 ^ 52"
    by blast+
  from f10 have f10': "fs ! nat 10 = 2598230554252209 / 2 ^ 49"
    by (simp add: to_double_sixty_thirteenths)
  from b10 have b10': "\<bar>60 / (fs ! nat 10) - 13\<bar> \<le> 13 / 2 ^ 52" by simp
  have "0 \<le> (9::int) \<and> (9::int) < 10 \<and> (10::int) < 11 \<and> (3::int) + 10 \<le> 2 ^ 52" by simp
  from dec [rule_format, OF this] have d: "fs ! nat 10 < fs ! nat 9" .
  from run len f0 f10' b10' d show ?thesis by blast
qed

lemma calculate_frequencies_fails_iff:
  assumes "0 < r" and "0 < m" and "0 < n"
  shows "(calculate_frequencies r m n =
            Inl (AssertionError (TooManyStimuliMaximumIs (r - of_int m + 1)))
          \<longleftrightarrow> r - of_int m + 1 < of_int n) \<and>
         ((\<exists>fs. calculate_frequencies r m n = Inr fs) \<longleftrightarrow> of_int n \<le> r - of_int m + 1)"
  using assms by (auto simp add: calculate_frequencies_def Let_def)

text \<open>
  Claim C3. With \<open>r > 0\<close>, \<open>m > 0\<close> and \<open>n > 0\<close>, the call fails with the "Too many stimuli"
  assertion exactly when \<open>r - m + 1 < n\<close> and succeeds otherwise
  (\<open>calculate_frequencies_fails_iff\<close>), and the call (60, 3, 59) fails. The message is to
  report the maximum number of stimuli the rate and the minimum cycle allow. The source
  interpolates \<open>r - m + 1\<close>: at the rate 60 that is 58, the largest count accepted; at
  the rate 60.5 the message reports 58.5 while the largest count accepted is 58.
\<close>

theorem calculate_frequencies_message_not_a_count:
  "calculate_frequencies (121 / 2) 3 59 =
     Inl (AssertionError (TooManyStimuliMaximumIs (117 / 2))) \<and>
   (\<exists>fs. calculate_frequencies (121 / 2) 3 58 = Inr fs) \<and>
   calculate_frequencies 60 3 59 = Inl (AssertionError (TooManyStimuliMaximumIs 58)) \<and>
   (\<exists>fs. calculate_frequencies 60 3 58 = Inr fs)"
  by (simp add: calculate_frequencies_def Let_def)

subsection \<open>Cycle parameters\<close>

lemma py_round_one [simp]: "py_round 1 = 1"
  by (simp add: py_round_def)

lemma py_round_half [simp]: "py_round (1 / 2) = 0"
  by (simp add: py_round_def)

text \<open>
  Claim C2. The clamp is to leave at least one ON and one OFF frame,
  \<open>1 \<le> on_frames < frames_per_cycle\<close>, for every rate and frequency. It does so whenever
  the cycle has two frames or more (\<open>calculate_cycle_params_guard\<close>, stated next). At the
  rate 60 and the frequency 60, which \<^verbatim>\<open>calculate_frequencies\<close> returns first for a minimum
  cycle of one frame, the cycle is one frame long and the function returns (1, 1): the
  only frame is ON and there is no OFF frame.
\<close>

theorem calculate_cycle_params_no_off_frame:
  "calculate_cycle_params 60 60 (1 / 2) = Inr (1, 1)"
  by (simp add: calculate_cycle_params_def Let_def to_double_one to_double_half)

lemma calculate_cycle_params_guard:
  assumes "freq \<noteq> 0" and "calculate_cycle_params refresh_rate freq duty_cycle = Inr (fpc, on)"
    and "2 \<le> fpc"
  shows "1 \<le> on \<and> on < fpc"
  using assms by (auto simp add: calculate_cycle_params_def Let_def)

text \<open>
  Claim C5 asks that \<open>on_frames\<close> is the nearest integer to \<open>frames_per_cycle * d\<close>,
  clamped. The source rounds the product to a double before \<^verbatim>\<open>round\<close> sees it. For
  (60, 12, 0.3), the duty cycle being the double nearest to 0.3, the exact product
  \<open>5 * d\<close> lies below 1.5 and its nearest integer is 1, inside \<open>[1, 4]\<close>; the double product
  is 1.5 and the function returns \<open>on_frames = 2\<close>. For (90, 2, 0.7) the decimal product
  is 31.5, which rounds to 32, while the double product lies below 31.5 and the function
  returns 31.
\<close>

theorem calculate_cycle_params_rounds_double_product:
  "calculate_cycle_params 60 12 (to_double (3 / 10)) = Inr (5, 2) \<and>
   \<bar>1 - 5 * to_double (3 / 10)\<bar> < 1 / 2 \<and>
   1 / 2 < \<bar>2 - 5 * to_double (3 / 10)\<bar> \<and>
   calculate_cycle_params 90 2 (to_double (7 / 10)) = Inr (45, 31) \<and>
   py_round (45 * (7 / 10)) = 32"
proof -
  have a: "calculate_cycle_params 60 12 (to_double (3 / 10)) = Inr (5, 2)" by code_simp
  have b: "\<bar>1 - 5 * to_double (3 / 10)\<bar> < 1 / 2" by (simp add: to_double_three_tenths)
  have c: "1 / 2 < \<bar>2 - 5 * to_double (3 / 10)\<bar>" by (simp add: to_double_three_tenths)
  have d: "calculate_cycle_params 90 2 (to_double (7 / 10)) = Inr (45, 31)" by code_simp
  have e: "py_round (45 * (7 / 10)) = 32" by code_simp
  from a b c d e show ?thesis by (intro conjI)
qed

text \<open>
  Claim C5, as the source has it. For \<open>r > 0\<close>, \<open>f > 0\<close> and any duty cycle \<open>d\<close>,
  \<^verbatim>\<open>calculate_cycle_params\<close> returns \<open>frames_per_cycle\<close>, the nearest integer (ties to even)
  to the double quotient \<open>r / f\<close>, and \<open>on_frames\<close>, which for a cycle of two frames or more
  is the nearest integer (ties to even) to the double product \<open>frames_per_cycle * d\<close>
  clamped to \<open>[1, frames_per_cycle - 1]\<close>: kept when it lies in the interval, raised to 1
  below it, lowered to \<open>frames_per_cycle - 1\<close> above it. Each double is within the fraction
  \<open>2 ^ - 53\<close> of the exact value. (60, 10, 0.5) gives (6, 3) and (120, 20, 0.25) gives
  (6, 2).
\<close>

theorem calculate_cycle_params_spec:
  assumes "0 < r" and "0 < f"
  shows "(\<exists>fpc rnd on.
            calculate_cycle_params r f d = Inr (fpc, on) \<and>
            fpc = py_round (to_double (r / f)) \<and>
            \<bar>of_int fpc - to_double (r / f)\<bar> \<le> 1 / 2 \<and>
            \<bar>to_double (r / f) - r / f\<bar> \<le> r / f / 2 ^ 53 \<and>
            rnd = py_round (to_double (of_int fpc * d)) \<and>
            \<bar>of_int rnd - to_double (of_int fpc * d)\<bar> \<le> 1 / 2 \<and>
            \<bar>to_double (of_int fpc * d) - of_int fpc * d\<bar> \<le> \<bar>of_int fpc * d\<bar> / 2 ^ 53 \<and>
            (2 \<le> fpc \<longrightarrow>
               1 \<le> on \<and> on \<le> fpc - 1 \<and>
               (1 \<le> rnd \<and> rnd \<le> fpc - 1 \<longrightarrow> on = rnd) \<and>
               (rnd < 1 \<longrightarrow> on = 1) \<and>
               (fpc - 1 < rnd \<longrightarrow> on = fpc - 1))) \<and>
         calculate_cycle_params 60 10 (1 / 2) = Inr (6, 3) \<and>
         calculate_cycle_params 120 20 (1 / 4) = Inr (6, 2)"
proof -
  let ?q = "to_double (r / f)"
  let ?fpc = "py_round ?q"
  let ?p = "to_double (of_int ?fpc * d)"
  let ?rnd = "py_round ?p"
  let ?on = "max 1 (min ?rnd (?fpc - 1))"
  from assms have run: "calculate_cycle_params r f d = Inr (?fpc, ?on)"
    by (simp add: calculate_cycle_params_def Let_def)
  have n1: "\<bar>of_int ?fpc - ?q\<bar> \<le> 1 / 2" by (rule py_round_nearest)
  from assms have "0 < r / f" by simp
  then have "\<bar>r / f\<bar> = r / f" by (rule abs_of_pos)
  with to_double_error [of "r / f"] have e1: "\<bar>?q - r / f\<bar> \<le> r / f / 2 ^ 53" by (simp only:)
  have n2: "\<bar>of_int ?rnd - ?p\<bar> \<le> 1 / 2" by (rule py_round_nearest)
  have e2: "\<bar>?p - of_int ?fpc * d\<bar> \<le> \<bar>of_int ?fpc * d\<bar> / 2 ^ 53" by (rule to_double_error)
  have clamp: "2 \<le> ?fpc \<longrightarrow>
               1 \<le> ?on \<and> ?on \<le> ?fpc - 1 \<and>
               (1 \<le> ?rnd \<and> ?rnd \<le> ?fpc - 1 \<longrightarrow> ?on = ?rnd) \<and>
               (?rnd < 1 \<longrightarrow> ?on = 1) \<and>
               (?fpc - 1 < ?rnd \<longrightarrow> ?on = ?fpc - 1)"
    by auto
  have x1: "calculate_cycle_params 60 10 (1 / 2) = Inr (6, 3)" by code_simp
  have x2: "calculate_cycle_params 120 20 (1 / 4) = Inr (6, 2)" by code_simp
  from run n1 e1 n2 e2 clamp have
    "\<exists>fpc rnd on.
            calculate_cycle_params r f d = Inr (fpc, on) \<and>
            fpc = py_round (to_double (r / f)) \<and>
            \<bar>of_int fpc - to_double (r / f)\<bar> \<le> 1 / 2 \<and>
            \<bar>to_double (r / f) - r / f\<bar> \<le> r / f / 2 ^ 53 \<and>
            rnd = py_round (to_double (of_int fpc * d)) \<and>
            \<bar>of_int rnd - to_double (of_int fpc * d)\<bar> \<le> 1 / 2 \<and>
            \<bar>to_double (of_int fpc * d) - of_int fpc * d\<bar> \<le> \<bar>of_int fpc * d\<bar> / 2 ^ 53 \<and>
            (2 \<le> fpc \<longrightarrow>
               1 \<le> on \<and> on \<le> fpc - 1 \<and>
               (1 \<le> rnd \<and> rnd \<le> fpc - 1 \<longrightarrow> on = rnd) \<and>
               (rnd < 1 \<longrightarrow> on = 1) \<and>
               (fpc - 1 < rnd \<longrightarrow> on = fpc - 1))"
    by (intro exI conjI) (rule refl | assumption)+
  with x1 x2 show ?thesis by (intro conjI)
qed

theorem calculate_cycle_params_spec_witness:
  "calculate_cycle_params 90 2 (to_double (7 / 10)) = Inr (45, 31) \<and>
   \<bar>45 - to_double (90 / 2)\<bar> \<le> (1 / 2 :: real) \<and>
   (1::int) \<le> 31 \<and> (31::int) \<le> 45 - 1"
proof -
  have h1: "(0::real) < 90" and h2: "(0::real) < 2" by simp_all
  have q: "py_round (to_double (90 / 2)) = 45" by code_simp
  have p: "py_round (to_double (of_int 45 * to_double (7 / 10))) = 31" by code_simp
  from calculate_cycle_params_spec [OF h1 h2, of "to_double (7 / 10)"] obtain fpc rnd on where
    run: "calculate_cycle_params 90 2 (to_double (7 / 10)) = Inr (fpc, on)" and
    fpc: "fpc = py_round (to_double (90 / 2))" and
    near: "\<bar>of_int fpc - to_double (90 / 2)\<bar> \<le> 1 / 2" and
    rnd: "rnd = py_round (to_double (of_int fpc * to_double (7 / 10)))" and
    clamp: "2 \<le> fpc \<longrightarrow>
               1 \<le> on \<and> on \<le> fpc - 1 \<and>
               (1 \<le> rnd \<and> rnd \<le> fpc - 1 \<longrightarrow> on = rnd) \<and>
               (rnd < 1 \<longrightarrow> on = 1) \<and>
               (fpc - 1 < rnd \<longrightarrow> on = fpc - 1)"
    by blast
  from fpc q have f45: "fpc = 45" by (simp only:)
  with rnd p have r31: "rnd = 31" by (simp only:)
  from clamp f45 r31 have "on = 31" by simp
  with run f45 near show ?thesis by simp
qed

subsection \<open>The maximal-length sequence\<close>

lemma max_len_seq_6: "max_len_seq 6 = Inr (mls6, [1, 1, 1, 1, 1, 1])"
  by code_simp

lemma mls6_length: "length mls6 = 63"
  by (simp add: mls6_def)

lemma mls6_windows_distinct: "distinct (cyclic_windows mls6 6)"
  by code_simp

lemma mls6_windows_nonzero: "replicate 6 0 \<notin> set (cyclic_windows mls6 6)"
  by code_simp

lemma mls6_windows_all:
  "list_all (\<lambda>w. w = replicate 6 0 \<or> w \<in> set (cyclic_windows mls6 6)) (List.n_lists 6 [0, 1])"
  by code_simp


lemma count_list_distinct: "distinct xs \<Longrightarrow> x \<in> set xs \<Longrightarrow> count_list xs x = 1"
  by (induction xs) (auto simp add: count_list_0_iff)

lemma mls6_window_once:
  assumes "length w = 6" and "set w \<subseteq> {0, 1}" and "w \<noteq> replicate 6 0"
  shows "count_list (cyclic_windows mls6 6) w = 1"
proof -
  from assms have "w \<in> set (List.n_lists 6 [0, 1])"
    by (simp add: set_n_lists)
  with mls6_windows_all assms(3) have "w \<in> set (cyclic_windows mls6 6)"
    by (auto simp add: list_all_iff)
  with mls6_windows_distinct show ?thesis by (rule count_list_distinct)
qed

lemma shift_loop_map:
  "shift_loop base_seq shift_step xs patterns =
     patterns @ map (\<lambda>s. np_roll base_seq (s * shift_step)) xs"
  by (induction xs arbitrary: patterns) simp_all

lemma calculate_m_sequences_run:
  "calculate_m_sequences n_stim = Inr (map (\<lambda>s. np_roll mls6 (s * 4)) (py_range n_stim))"
  by (simp add: calculate_m_sequences_def max_len_seq_6 shift_loop_map)

text \<open>
  Claim C7. The base sequence generated with bit depth 6 (the one stimulus 0 receives)
  has length \<open>2 ^ 6 - 1 = 63\<close>, and every non-zero window of 6 consecutive bits appears
  exactly once per period; the all-zero window does not appear.
\<close>

theorem max_len_seq_6_maximal:
  "\<exists>base_seq state.
      max_len_seq 6 = Inr (base_seq, state) \<and>
      calculate_m_sequences 1 = Inr [base_seq] \<and>
      length base_seq = 2 ^ 6 - 1 \<and> length base_seq = 63 \<and>
      (\<forall>w. length w = 6 \<and> set w \<subseteq> {0, 1} \<and> w \<noteq> replicate 6 0 \<longrightarrow>
           count_list (cyclic_windows base_seq 6) w = 1) \<and>
      count_list (cyclic_windows base_seq 6) (replicate 6 0) = 0"
proof -
  have one: "calculate_m_sequences 1 = Inr [mls6]"
    by (simp add: calculate_m_sequences_run py_range_def py_range2_def upto.simps np_roll_def mls6_def)
  have zero: "count_list (cyclic_windows mls6 6) (replicate 6 0) = 0"
    unfolding count_list_0_iff by (rule mls6_windows_nonzero)
  from max_len_seq_6 one mls6_length mls6_window_once zero show ?thesis
    by (intro exI conjI allI impI) (assumption | simp)+
qed

theorem max_len_seq_6_maximal_witness:
  "\<exists>base_seq state.
      max_len_seq 6 = Inr (base_seq, state) \<and>
      count_list (cyclic_windows base_seq 6) [1, 0, 0, 0, 0, 0] = 1 \<and>
      count_list (cyclic_windows base_seq 6) [0, 1, 1, 0, 1, 0] = 1"
proof -
  from max_len_seq_6_maximal obtain base_seq state where
    run: "max_len_seq 6 = Inr (base_seq, state)" and
    once: "\<forall>w. length w = 6 \<and> set w \<subseteq> {0, 1} \<and> w \<noteq> replicate 6 0 \<longrightarrow>
           count_list (cyclic_windows base_seq 6) w = 1"
    by blast
  from once [rule_format, of "[1, 0, 0, 0, 0, 0]"]
  have "count_list (cyclic_windows base_seq 6) [1, 0, 0, 0, 0, 0] = 1"
    by (simp add: eval_nat_numeral)
  moreover from once [rule_format, of "[0, 1, 1, 0, 1, 0]"]
  have "count_list (cyclic_windows base_seq 6) [0, 1, 1, 0, 1, 0] = 1"
    by (simp add: eval_nat_numeral)
  ultimately show ?thesis using run by blast
qed

subsection \<open>Shifted sequences\<close>

lemma np_roll_length [simp]: "length (np_roll a shift) = length a"
  by (simp add: np_roll_def Let_def)

lemma np_roll_mod: "np_roll a (shift mod int (length a)) = np_roll a shift"
  by (simp add: np_roll_def Let_def)

lemma np_roll_nth:
  assumes "j < length a"
  shows "np_roll a shift ! j = a ! nat ((int j - shift) mod int (length a))"
proof -
  define n where "n = length a"
  define k where "k = nat (shift mod int n)"
  from assms have n: "0 < n" and ne: "a \<noteq> []" and jn: "j < n" by (auto simp add: n_def)
  from n have ik: "int k = shift mod int n" by (simp add: k_def)
  from n have "shift mod int n < int n" by simp
  with ik have k: "k < n" by linarith
  have roll: "np_roll a shift = drop (n - k) a @ take (n - k) a"
    using ne by (simp add: np_roll_def Let_def n_def k_def)
  have ld: "length (drop (n - k) a) = k" using k by (simp add: n_def)
  have eq: "(int j - shift) mod int n = (int j - int k) mod int n"
    unfolding ik by (rule mod_diff_right_eq [symmetric])
  show ?thesis
  proof (cases "j < k")
    case True
    have "(int j - int k) mod int n = (int j - int k + int n) mod int n" by simp
    also have "\<dots> = int j - int k + int n"
      using True k by (intro mod_pos_pos_trivial) linarith+
    finally have "nat ((int j - shift) mod int n) = n - k + j"
      using eq True k by linarith
    moreover have "np_roll a shift ! j = a ! (n - k + j)"
      unfolding roll using True ld k by (simp add: nth_append n_def)
    ultimately show ?thesis by (simp add: n_def)
  next
    case False
    have "(int j - int k) mod int n = int j - int k"
      using False jn by (intro mod_pos_pos_trivial) linarith+
    then have "nat ((int j - shift) mod int n) = j - k"
      using eq False by linarith
    moreover have "np_roll a shift ! j = a ! (j - k)"
      unfolding roll using False ld k jn by (simp add: nth_append n_def)
    ultimately show ?thesis by (simp add: n_def)
  qed
qed

lemma shifts_distinct:
  fixes s t :: int
  assumes "0 \<le> s" and "s < t" and "t < 63"
  shows "(s * 4) mod 63 \<noteq> (t * 4) mod 63"
proof
  assume "(s * 4) mod 63 = (t * 4) mod 63"
  then have "(t * 4) mod 63 = (s * 4) mod 63" by simp
  then have "63 dvd t * 4 - s * 4" by (simp only: mod_eq_dvd_iff)
  then have "63 dvd 16 * (t * 4 - s * 4)" by (rule dvd_mult)
  moreover have "(63::int) dvd 63 * (t - s)" by simp
  ultimately have "63 dvd 16 * (t * 4 - s * 4) - 63 * (t - s)" by (rule dvd_diff)
  moreover have "16 * (t * 4 - s * 4) - 63 * (t - s) = t - s" by (simp add: algebra_simps)
  ultimately have "63 dvd t - s" by simp
  moreover from assms have "0 < t - s" by simp
  ultimately have "63 \<le> t - s" by (rule zdvd_imp_le)
  with assms show False by simp
qed

lemma shifts_alias:
  fixes s :: int
  shows "((s + 63) * 4) mod 63 = (s * 4) mod 63"
proof -
  have "(s + 63) * 4 = s * 4 + 63 * 4" by (simp add: algebra_simps)
  then show ?thesis by (simp only: mod_mult_self2)
qed

lemma mls6_roll_mod: "np_roll mls6 (shift mod 63) = np_roll mls6 shift"
  using np_roll_mod [of mls6 shift] by (simp add: mls6_length)

lemma m_sequences_nth:
  assumes "0 \<le> s" and "s < n_stim"
  shows "map (\<lambda>s. np_roll mls6 (s * 4)) (py_range n_stim) ! nat s = np_roll mls6 (s * 4)"
  using assms by (simp add: py_range_length py_range_nth)

text \<open>
  Claim C6 asks that two stimuli never share a rotation and that a stimulus count which
  would alias fails with a collision error. The source has no such check: with 64
  stimuli the call returns 64 sequences, and stimulus 63 is rotated by \<open>63 * 4\<close>, which
  is 0 modulo 63, so it receives the very sequence of stimulus 0.
\<close>

theorem calculate_m_sequences_aliasing:
  "\<exists>ps. calculate_m_sequences 64 = Inr ps \<and> length ps = 64 \<and>
        ps ! nat 0 = ps ! nat 63 \<and> ((0::int) * 4) mod 63 = (63 * 4) mod 63"
proof -
  let ?ps = "map (\<lambda>s. np_roll mls6 (s * 4)) (py_range 64)"
  have run: "calculate_m_sequences 64 = Inr ?ps" by (rule calculate_m_sequences_run)
  have len: "length ?ps = 64" by (simp add: py_range_length)
  have p0: "?ps ! nat 0 = np_roll mls6 (0 * 4)" by (rule m_sequences_nth) simp_all
  have p63: "?ps ! nat 63 = np_roll mls6 (63 * 4)" by (rule m_sequences_nth) simp_all
  have "np_roll mls6 (63 * 4) = np_roll mls6 ((63 * 4) mod 63)" by (rule mls6_roll_mod [symmetric])
  also have "\<dots> = np_roll mls6 (0 * 4)" by simp
  finally have "?ps ! nat 0 = ?ps ! nat 63" using p0 p63 by simp
  with run len show ?thesis by (intro exI conjI) (assumption | simp)+
qed

text \<open>
  Claim C6, as the source has it. \<^verbatim>\<open>calculate_m_sequences\<close> never fails: for every
  \<open>n_stim\<close> it returns one sequence per stimulus \<open>s\<close> in \<open>[0, n_stim)\<close>, the base sequence
  rotated cyclically by \<open>s * 4\<close> modulo 63 (bit \<open>j\<close> of it is bit \<open>(j - s * 4) mod 63\<close> of
  the base sequence). The rotation amounts of the stimuli below 63 are pairwise distinct
  modulo 63; from stimulus 63 on, stimulus \<open>s + 63\<close> has the rotation and the sequence of
  stimulus \<open>s\<close>.
\<close>

theorem calculate_m_sequences_spec:
  "\<exists>base_seq state ps.
      max_len_seq 6 = Inr (base_seq, state) \<and>
      calculate_m_sequences n_stim = Inr ps \<and>
      length ps = nat n_stim \<and>
      (\<forall>s. 0 \<le> s \<and> s < n_stim \<longrightarrow>
           ps ! nat s = np_roll base_seq ((s * 4) mod 63) \<and>
           length (ps ! nat s) = 63 \<and>
           (\<forall>j. j < 63 \<longrightarrow> ps ! nat s ! j = base_seq ! nat ((int j - s * 4) mod 63))) \<and>
      (\<forall>s t. 0 \<le> s \<and> s < t \<and> t < n_stim \<and> t < 63 \<longrightarrow>
           (s * 4) mod 63 \<noteq> (t * 4) mod 63) \<and>
      (\<forall>s. 0 \<le> s \<and> s + 63 < n_stim \<longrightarrow>
           ((s + 63) * 4) mod 63 = (s * 4) mod 63 \<and> ps ! nat (s + 63) = ps ! nat s)"
proof -
  let ?ps = "map (\<lambda>s. np_roll mls6 (s * 4)) (py_range n_stim)"
  have run: "calculate_m_sequences n_stim = Inr ?ps" by (rule calculate_m_sequences_run)
  have len: "length ?ps = nat n_stim" by (simp add: py_range_length)
  have rot: "?ps ! nat s = np_roll mls6 ((s * 4) mod 63) \<and>
             length (?ps ! nat s) = 63 \<and>
             (\<forall>j. j < 63 \<longrightarrow> ?ps ! nat s ! j = mls6 ! nat ((int j - s * 4) mod 63))"
    if "0 \<le> s \<and> s < n_stim" for s
  proof -
    from that have p: "?ps ! nat s = np_roll mls6 (s * 4)" by (intro m_sequences_nth) simp_all
    have a: "?ps ! nat s = np_roll mls6 ((s * 4) mod 63)" by (simp only: p mls6_roll_mod)
    have b: "length (?ps ! nat s) = 63" by (simp only: p np_roll_length mls6_length)
    have c: "?ps ! nat s ! j = mls6 ! nat ((int j - s * 4) mod 63)" if "j < 63" for j
      using that np_roll_nth [of j mls6 "s * 4"] by (simp add: p mls6_length)
    from a b c show ?thesis by blast
  qed
  have dis: "(s * 4) mod 63 \<noteq> (t * 4) mod 63"
    if "0 \<le> s \<and> s < t \<and> t < n_stim \<and> t < 63" for s t :: int
    using that by (intro shifts_distinct) simp_all
  have ali: "((s + 63) * 4) mod 63 = (s * 4) mod 63 \<and> ?ps ! nat (s + 63) = ?ps ! nat s"
    if "0 \<le> s \<and> s + 63 < n_stim" for s
  proof -
    from that have "?ps ! nat (s + 63) = np_roll mls6 ((s + 63) * 4)"
      by (intro m_sequences_nth) simp_all
    also have "\<dots> = np_roll mls6 (((s + 63) * 4) mod 63)" by (rule mls6_roll_mod [symmetric])
    also have "\<dots> = np_roll mls6 ((s * 4) mod 63)" by (simp only: shifts_alias)
    also have "\<dots> = np_roll mls6 (s * 4)" by (rule mls6_roll_mod)
    also from that have "\<dots> = ?ps ! nat s" by (intro m_sequences_nth [symmetric]) simp_all
    finally show ?thesis using shifts_alias by blast
  qed
  from max_len_seq_6 run len rot dis ali show ?thesis by blast
qed

theorem calculate_m_sequences_spec_witness:
  "\<exists>base_seq state ps.
      max_len_seq 6 = Inr (base_seq, state) \<and>
      calculate_m_sequences 64 = Inr ps \<and>
      ps ! nat 2 = np_roll base_seq 8 \<and>
      ps ! nat 2 ! 8 = base_seq ! 0 \<and>
      ((1::int) * 4) mod 63 \<noteq> (2 * 4) mod 63 \<and>
      ps ! nat (0 + 63) = ps ! nat 0"
proof -
  from calculate_m_sequences_spec [of 64] obtain base_seq state ps where
    mls: "max_len_seq 6 = Inr (base_seq, state)" and
    run: "calculate_m_sequences 64 = Inr ps" and
    rot: "\<forall>s. 0 \<le> s \<and> s < 64 \<longrightarrow>
           ps ! nat s = np_roll base_seq ((s * 4) mod 63) \<and>
           length (ps ! nat s) = 63 \<and>
           (\<forall>j. j < 63 \<longrightarrow> ps ! nat s ! j = base_seq ! nat ((int j - s * 4) mod 63))" and
    dis: "\<forall>s t. 0 \<le> s \<and> s < t \<and> t < 64 \<and> t < 63 \<longrightarrow>
           (s * 4) mod 63 \<noteq> (t * 4) mod (63::int)" and
    ali: "\<forall>s. 0 \<le> s \<and> s + 63 < 64 \<longrightarrow>
           ((s + 63) * 4) mod 63 = (s * 4) mod 63 \<and> ps ! nat (s + 63) = ps ! nat s"
    by blast
  have "0 \<le> (2::int) \<and> (2::int) < 64" by simp
  from rot [rule_format, OF this] have
    c: "ps ! nat 2 = np_roll base_seq ((2 * 4) mod 63) \<and>
        length (ps ! nat 2) = 63 \<and>
        (\<forall>j. j < 63 \<longrightarrow> ps ! nat 2 ! j = base_seq ! nat ((int j - 2 * 4) mod 63))" .
  from c have r2: "ps ! nat 2 = np_roll base_seq 8" by simp
  from c have j2: "\<forall>j. j < 63 \<longrightarrow> ps ! nat 2 ! j = base_seq ! nat ((int j - 2 * 4) mod 63)"
    by blast
  from j2 [rule_format, of 8] have "ps ! nat 2 ! 8 = base_seq ! 0" by simp
  moreover from dis [rule_format, of 1 2] have "((1::int) * 4) mod 63 \<noteq> (2 * 4) mod 63" by simp
  moreover from ali [rule_format, of 0] have "ps ! nat (0 + 63) = ps ! nat 0" by simp
  ultimately show ?thesis using mls run r2 by blast
qed

subsection \<open>The layout\<close>

lemma py_range_map: "py_range n = map int [0..<nat n]"
  by (rule nth_equalityI) (simp_all add: py_range_length py_range_nth)

lemma col_loop_take:
  "length positions \<le> nat n_stim \<Longrightarrow> 0 \<le> n_stim \<Longrightarrow>
   col_loop n_stim cols rows sx sy r cs positions =
     positions @ take (nat n_stim - length positions) (map (grid_pos cols rows sx sy r) cs)"
proof (induction cs arbitrary: positions)
  case Nil
  then show ?case by simp
next
  case (Cons c cs)
  show ?case
  proof (cases "int (length positions) = n_stim")
    case True
    then show ?thesis by simp
  next
    case False
    with Cons.prems have lt: "length positions < nat n_stim" by linarith
    then have "length (positions @ [grid_pos cols rows sx sy r c]) \<le> nat n_stim" by simp
    from Cons.IH [OF this Cons.prems(2)] False lt show ?thesis
      by (simp add: grid_pos_def Let_def take_Cons')
  qed
qed

lemma row_loop_take:
  "length positions \<le> nat n_stim \<Longrightarrow> 0 \<le> n_stim \<Longrightarrow>
   row_loop n_stim cols rows sx sy rs positions =
     positions @ take (nat n_stim - length positions)
       (concat (map (\<lambda>r. map (grid_pos cols rows sx sy r) (py_range cols)) rs))"
proof (induction rs arbitrary: positions)
  case Nil
  then show ?case by simp
next
  case (Cons r rs)
  let ?row = "map (grid_pos cols rows sx sy r) (py_range cols)"
  let ?k = "nat n_stim - length positions"
  let ?p = "positions @ take ?k ?row"
  have step: "col_loop n_stim cols rows sx sy r (py_range cols) positions = ?p"
    using Cons.prems by (rule col_loop_take)
  have len: "length ?p \<le> nat n_stim" using Cons.prems by simp
  have rest: "nat n_stim - length ?p = ?k - length ?row \<or> (?k \<le> length ?row \<and> nat n_stim - length ?p = 0)"
    by (simp add: min_def)
  have "row_loop n_stim cols rows sx sy (r # rs) positions =
        row_loop n_stim cols rows sx sy rs ?p"
    by (simp only: row_loop.simps step)
  also have "\<dots> = ?p @ take (nat n_stim - length ?p)
       (concat (map (\<lambda>r. map (grid_pos cols rows sx sy r) (py_range cols)) rs))"
    using len Cons.prems(2) by (rule Cons.IH)
  also have "\<dots> = positions @ take ?k
       (concat (map (\<lambda>r. map (grid_pos cols rows sx sy r) (py_range cols)) (r # rs)))"
    using rest by (auto simp add: min_def)
  finally show ?case .
qed

lemma grid_length:
  "length (concat (map (\<lambda>r. map (f r) [0..<C]) [0..<R])) = R * C"
  by (induction R) simp_all

lemma grid_nth:
  "k < R * C \<Longrightarrow> concat (map (\<lambda>r. map (f r) [0..<C]) [0..<R]) ! k = f (k div C) (k mod C)"
proof (induction R)
  case 0
  then show ?case by simp
next
  case (Suc R)
  show ?case
  proof (cases "k < R * C")
    case True
    with Suc.IH show ?thesis by (simp add: nth_append grid_length)
  next
    case False
    define j where "j = k - R * C"
    from False Suc.prems have j: "j < C" and k: "k = j + R * C" by (simp_all add: j_def)
    from j have d: "k div C = R" and m: "k mod C = j" unfolding k by simp_all
    from False j show ?thesis by (simp add: nth_append grid_length d m) (simp add: j_def)
  qed
qed


lemma grid_cols_pos: "1 \<le> n \<Longrightarrow> 1 \<le> grid_cols n"
proof -
  assume "1 \<le> n"
  then have "0 < sqrt (real_of_int n)" by simp
  then have "0 < \<lceil>sqrt (real_of_int n)\<rceil>" by (simp only: zero_less_ceiling)
  then show ?thesis by (simp add: grid_cols_def)
qed

lemma grid_rows_pos: "1 \<le> n \<Longrightarrow> 1 \<le> grid_rows n"
proof -
  assume n: "1 \<le> n"
  then have "1 \<le> grid_cols n" by (rule grid_cols_pos)
  with n have "0 < real_of_int n / real_of_int (grid_cols n)" by simp
  then have "0 < \<lceil>real_of_int n / real_of_int (grid_cols n)\<rceil>" by (simp only: zero_less_ceiling)
  then show ?thesis by (simp add: grid_rows_def)
qed

lemma grid_holds_all: "1 \<le> n \<Longrightarrow> n \<le> grid_rows n * grid_cols n"
proof -
  assume n: "1 \<le> n"
  then have c: "0 < real_of_int (grid_cols n)" using grid_cols_pos [of n] by simp
  have "real_of_int n / real_of_int (grid_cols n) \<le> real_of_int (grid_rows n)"
    unfolding grid_rows_def by (rule le_of_int_ceiling)
  with c have "real_of_int n \<le> real_of_int (grid_rows n) * real_of_int (grid_cols n)"
    by (simp add: pos_divide_le_eq)
  then have "real_of_int n \<le> real_of_int (grid_rows n * grid_cols n)" by simp
  then show ?thesis by (simp only: of_int_le_iff)
qed

lemma generate_positions_run:
  assumes "1 \<le> n"
  shows "generate_positions n =
           Inr (take (nat n) (concat (map (\<lambda>r. map (spec_position n r) (py_range (grid_cols n)))
                                          (py_range (grid_rows n)))))"
proof -
  from assms have c: "1 \<le> grid_cols n" and r: "1 \<le> grid_rows n"
    by (rule grid_cols_pos, rule grid_rows_pos)
  have sx: "(if grid_cols n > 1 then 1 / (of_int (grid_cols n) - 1) else 0) = grid_spacing (grid_cols n)"
    using c by (simp add: grid_spacing_def)
  have sy: "(if grid_rows n > 1 then 1 / (of_int (grid_rows n) - 1) else 0) = grid_spacing (grid_rows n)"
    using r by (simp add: grid_spacing_def)
  have "generate_positions n =
          Inr (row_loop n (grid_cols n) (grid_rows n) (grid_spacing (grid_cols n))
                 (grid_spacing (grid_rows n)) (py_range (grid_rows n)) [])"
    using assms c sx sy
    by (simp add: generate_positions_def Let_def grid_cols_def [symmetric] grid_rows_def [symmetric])
  also have "row_loop n (grid_cols n) (grid_rows n) (grid_spacing (grid_cols n))
                 (grid_spacing (grid_rows n)) (py_range (grid_rows n)) [] =
             [] @ take (nat n - length ([] :: (real \<times> real) list))
               (concat (map (\<lambda>r. map (grid_pos (grid_cols n) (grid_rows n) (grid_spacing (grid_cols n))
                 (grid_spacing (grid_rows n)) r) (py_range (grid_cols n))) (py_range (grid_rows n))))"
    using assms by (intro row_loop_take) simp_all
  finally show ?thesis by (simp add: spec_position_def [abs_def])
qed


lemma grid_as_nat:
  "concat (map (\<lambda>r. map (f r) (py_range C)) (py_range R)) =
   concat (map (\<lambda>r. map (\<lambda>c. f (int r) (int c)) [0..<nat C]) [0..<nat R])"
  by (simp add: py_range_map comp_def)

lemma positions_length:
  assumes "1 \<le> n"
  shows "nat n \<le> length (concat (map (\<lambda>r. map (f r) (py_range (grid_cols n))) (py_range (grid_rows n))))"
proof -
  from assms have "n \<le> grid_rows n * grid_cols n" by (rule grid_holds_all)
  then have "nat n \<le> nat (grid_rows n * grid_cols n)" by simp
  also have "\<dots> = nat (grid_rows n) * nat (grid_cols n)"
    using grid_rows_pos [OF assms] by (simp add: nat_mult_distrib)
  finally show ?thesis by (simp only: grid_as_nat grid_length)
qed

lemma positions_nth:
  assumes "1 \<le> n" and "0 \<le> k" and "k < n"
  shows "concat (map (\<lambda>r. map (f r) (py_range (grid_cols n))) (py_range (grid_rows n))) ! nat k =
         f (k div grid_cols n) (k mod grid_cols n)"
proof -
  let ?C = "nat (grid_cols n)" and ?R = "nat (grid_rows n)"
  from assms(1) have c: "1 \<le> grid_cols n" by (rule grid_cols_pos)
  from assms have "nat k < nat n" by simp
  also have "nat n \<le> ?R * ?C"
    using positions_length [OF assms(1), of f] by (simp only: grid_as_nat grid_length)
  finally have "concat (map (\<lambda>r. map (\<lambda>c. f (int r) (int c)) [0..<?C]) [0..<?R]) ! nat k =
      f (int (nat k div ?C)) (int (nat k mod ?C))"
    by (rule grid_nth)
  moreover from assms c have "int (nat k div ?C) = k div grid_cols n"
    by (simp add: zdiv_int)
  moreover from assms c have "int (nat k mod ?C) = k mod grid_cols n"
    by (simp add: zmod_int)
  ultimately show ?thesis by (simp only: grid_as_nat)
qed

lemma sqrt_nine: "sqrt 9 = 3"
  by (rule real_sqrt_unique) simp_all

lemma grid_nine: "grid_cols 9 = 3 \<and> grid_rows 9 = 3"
  by (simp add: grid_cols_def grid_rows_def sqrt_nine)

lemma generate_positions_nine:
  "generate_positions 9 =
     Inr [(- 1 / 2, 1 / 2), (0, 1 / 2), (1 / 2, 1 / 2),
          (- 1 / 2, 0), (0, 0), (1 / 2, 0),
          (- 1 / 2, - 1 / 2), (0, - 1 / 2), (1 / 2, - 1 / 2)]"
  by (simp add: generate_positions_def Let_def sqrt_nine py_range_def py_range2_def upto.simps)

lemma nine_symmetric:
  "\<exists>ps. generate_positions 9 = Inr ps \<and>
     ps = [(- 1 / 2, 1 / 2), (0, 1 / 2), (1 / 2, 1 / 2),
           (- 1 / 2, 0), (0, 0), (1 / 2, 0),
           (- 1 / 2, - 1 / 2), (0, - 1 / 2), (1 / 2, - 1 / 2)] \<and>
     sum_list (map fst ps) = 0 \<and> sum_list (map snd ps) = 0 \<and>
     (\<lambda>p. (- fst p, snd p)) ` set ps = set ps \<and>
     (\<lambda>p. (fst p, - snd p)) ` set ps = set ps"
proof -
  let ?ps = "[(- 1 / 2, 1 / 2), (0, 1 / 2), (1 / 2, 1 / 2),
              (- 1 / 2, 0), (0, 0), (1 / 2, 0),
              (- 1 / 2, - 1 / 2), (0, - 1 / 2), (1 / 2, - 1 / 2)] :: (real \<times> real) list"
  have run: "generate_positions 9 = Inr ?ps" by (rule generate_positions_nine)
  have centred: "sum_list (map fst ?ps) = 0 \<and> sum_list (map snd ?ps) = 0" by simp
  have mx: "(\<lambda>p. (- fst p, snd p)) ` set ?ps = set ?ps" by auto
  have my: "(\<lambda>p. (fst p, - snd p)) ` set ?ps = set ?ps" by auto
  from run centred mx my show ?thesis by blast
qed

text \<open>
  Claim C8. For \<open>n_stim \<ge> 1\<close>, \<^verbatim>\<open>generate_positions\<close> returns exactly \<open>n_stim\<close> positions in
  row-major order on the grid of \<open>cols = ceil(sqrt(n_stim))\<close> columns and
  \<open>rows = ceil(n_stim / cols)\<close> rows: position \<open>k\<close> is the spec's position at row
  \<open>k div cols\<close> and column \<open>k mod cols\<close>, so the last row may be partially filled. For 9
  stimuli the grid is 3 by 3, centred at the origin and symmetric about both axes.
\<close>

theorem generate_positions_spec:
  assumes "1 \<le> n"
  shows "(\<exists>ps. generate_positions n = Inr ps \<and> int (length ps) = n \<and>
             (\<forall>k. 0 \<le> k \<and> k < n \<longrightarrow>
                  ps ! nat k = spec_position n (k div grid_cols n) (k mod grid_cols n))) \<and>
         grid_cols 9 = 3 \<and> grid_rows 9 = 3 \<and>
         (\<exists>ps. generate_positions 9 = Inr ps \<and>
            ps = [(- 1 / 2, 1 / 2), (0, 1 / 2), (1 / 2, 1 / 2),
                  (- 1 / 2, 0), (0, 0), (1 / 2, 0),
                  (- 1 / 2, - 1 / 2), (0, - 1 / 2), (1 / 2, - 1 / 2)] \<and>
            sum_list (map fst ps) = 0 \<and> sum_list (map snd ps) = 0 \<and>
            (\<lambda>p. (- fst p, snd p)) ` set ps = set ps \<and>
            (\<lambda>p. (fst p, - snd p)) ` set ps = set ps)"
proof -
  let ?grid = "concat (map (\<lambda>r. map (spec_position n r) (py_range (grid_cols n)))
                           (py_range (grid_rows n)))"
  have run: "generate_positions n = Inr (take (nat n) ?grid)"
    using assms by (rule generate_positions_run)
  have "nat n \<le> length ?grid" using assms by (rule positions_length)
  with assms have len: "int (length (take (nat n) ?grid)) = n" by simp
  have nth: "take (nat n) ?grid ! nat k = spec_position n (k div grid_cols n) (k mod grid_cols n)"
    if "0 \<le> k \<and> k < n" for k
  proof -
    from that have "take (nat n) ?grid ! nat k = ?grid ! nat k" by simp
    also from assms that have "\<dots> = spec_position n (k div grid_cols n) (k mod grid_cols n)"
      by (intro positions_nth) simp_all
    finally show ?thesis .
  qed
  have general: "\<exists>ps. generate_positions n = Inr ps \<and> int (length ps) = n \<and>
      (\<forall>k. 0 \<le> k \<and> k < n \<longrightarrow>
           ps ! nat k = spec_position n (k div grid_cols n) (k mod grid_cols n))"
    using run len nth by blast
  from general grid_nine nine_symmetric show ?thesis by (intro conjI) simp_all
qed

theorem generate_positions_spec_witness:
  "\<exists>ps. generate_positions 9 = Inr ps \<and> int (length ps) = 9 \<and>
        ps ! nat 5 = spec_position 9 1 2 \<and> spec_position 9 1 2 = (1 / 2, 0)"
proof -
  have h: "(1::int) \<le> 9" by simp
  from generate_positions_spec [OF h] obtain ps where
    run: "generate_positions 9 = Inr ps" and len: "int (length ps) = 9" and
    nth: "\<forall>k. 0 \<le> k \<and> k < 9 \<longrightarrow>
             ps ! nat k = spec_position 9 (k div grid_cols 9) (k mod grid_cols 9)" and
    g: "grid_cols 9 = 3" "grid_rows 9 = 3"
    by blast
  from nth [rule_format, of 5] g have "ps ! nat 5 = spec_position 9 1 2" by simp
  moreover from g have "spec_position 9 1 2 = (1 / 2, 0)"
    by (simp add: spec_position_def grid_pos_def grid_spacing_def)
  ultimately show ?thesis using run len by blast
qed


lemma half_width:
  fixes a b :: real
  shows "0 \<le> a \<Longrightarrow> a \<le> b \<Longrightarrow> \<bar>a - b / 2\<bar> \<le> b / 2"
  by (simp add: abs_le_iff field_simps)

lemma coord_bound:
  assumes "1 \<le> K" and "0 \<le> c" and "c \<le> K - 1"
  shows "\<bar>(real_of_int c - (real_of_int K - 1) / 2) * grid_spacing K\<bar> \<le> 1 / 2"
proof (cases "K = 1")
  case True
  then show ?thesis by (simp add: grid_spacing_def)
next
  case False
  with assms have K: "0 < real_of_int K - 1" by simp
  from assms(2) have lo: "0 \<le> real_of_int c" by simp
  from assms(3) have "real_of_int c \<le> real_of_int (K - 1)" by (simp only: of_int_le_iff)
  then have hi: "real_of_int c \<le> real_of_int K - 1" by simp
  from lo hi have "\<bar>real_of_int c - (real_of_int K - 1) / 2\<bar> \<le> (real_of_int K - 1) / 2"
    by (rule half_width)
  then have "\<bar>real_of_int c - (real_of_int K - 1) / 2\<bar> / (real_of_int K - 1) \<le> 1 / 2"
    using K by (simp add: pos_divide_le_eq)
  moreover have "\<bar>(real_of_int c - (real_of_int K - 1) / 2) * grid_spacing K\<bar> =
      \<bar>real_of_int c - (real_of_int K - 1) / 2\<bar> / (real_of_int K - 1)"
    using False K by (simp add: grid_spacing_def abs_mult)
  ultimately show ?thesis by simp
qed

lemma spec_position_bound:
  assumes "1 \<le> n" and "r \<in> set (py_range (grid_rows n))" and "c \<in> set (py_range (grid_cols n))"
  shows "\<bar>fst (spec_position n r c)\<bar> \<le> 1 / 2 \<and> \<bar>snd (spec_position n r c)\<bar> \<le> 1 / 2"
proof -
  from assms have rr: "0 \<le> r" "r \<le> grid_rows n - 1" and cc: "0 \<le> c" "c \<le> grid_cols n - 1"
    by (simp_all add: py_range_def py_range2_def)
  have x: "\<bar>(real_of_int c - (real_of_int (grid_cols n) - 1) / 2) * grid_spacing (grid_cols n)\<bar> \<le> 1 / 2"
    using grid_cols_pos [OF assms(1)] cc by (rule coord_bound)
  have "\<bar>(real_of_int r - (real_of_int (grid_rows n) - 1) / 2) * grid_spacing (grid_rows n)\<bar> \<le> 1 / 2"
    using grid_rows_pos [OF assms(1)] rr by (rule coord_bound)
  moreover have "((real_of_int (grid_rows n) - 1) / 2 - real_of_int r) * grid_spacing (grid_rows n) =
      - ((real_of_int r - (real_of_int (grid_rows n) - 1) / 2) * grid_spacing (grid_rows n))"
    by (simp add: algebra_simps)
  ultimately have y: "\<bar>((real_of_int (grid_rows n) - 1) / 2 - real_of_int r) * grid_spacing (grid_rows n)\<bar> \<le> 1 / 2"
    by (simp only: abs_minus_cancel)
  from x y show ?thesis by (simp add: spec_position_def grid_pos_def)
qed

text \<open>
  Claim C10. For \<open>n_stim \<ge> 1\<close>, every position \<open>(x, y)\<close> that \<^verbatim>\<open>generate_positions\<close> returns
  has \<open>-0.5 \<le> x \<le> 0.5\<close> and \<open>-0.5 \<le> y \<le> 0.5\<close>, whatever the shape of the grid.
\<close>

theorem generate_positions_bounds:
  assumes "1 \<le> n"
  shows "\<exists>ps. generate_positions n = Inr ps \<and>
            (\<forall>p \<in> set ps. - (1 / 2) \<le> fst p \<and> fst p \<le> 1 / 2 \<and>
                           - (1 / 2) \<le> snd p \<and> snd p \<le> 1 / 2)"
proof -
  let ?grid = "concat (map (\<lambda>r. map (spec_position n r) (py_range (grid_cols n)))
                           (py_range (grid_rows n)))"
  have run: "generate_positions n = Inr (take (nat n) ?grid)"
    using assms by (rule generate_positions_run)
  have "- (1 / 2) \<le> fst p \<and> fst p \<le> 1 / 2 \<and> - (1 / 2) \<le> snd p \<and> snd p \<le> 1 / 2"
    if "p \<in> set (take (nat n) ?grid)" for p
  proof -
    from that have "p \<in> set ?grid" by (rule in_set_takeD)
    then obtain r c where "r \<in> set (py_range (grid_rows n))"
      and "c \<in> set (py_range (grid_cols n))" and "p = spec_position n r c"
      by auto
    with spec_position_bound [OF assms, of r c] show ?thesis
      by (simp add: abs_le_iff) linarith
  qed
  with run show ?thesis by blast
qed

lemma ceiling_sqrt_five: "\<lceil>sqrt 5\<rceil> = 3"
proof -
  have "2 < sqrt 5" by (rule real_less_rsqrt) simp
  moreover have "sqrt 5 \<le> 3" by (rule real_le_lsqrt) simp_all
  ultimately show ?thesis by (simp add: ceiling_eq_iff)
qed

lemma generate_positions_five:
  "generate_positions 5 =
     Inr [(- 1 / 2, 1 / 2), (0, 1 / 2), (1 / 2, 1 / 2), (- 1 / 2, - 1 / 2), (0, - 1 / 2)]"
proof -
  have "\<lceil>5 / 3 :: real\<rceil> = 2" by (simp add: ceiling_eq_iff)
  then show ?thesis
    by (simp add: generate_positions_def Let_def ceiling_sqrt_five py_range_def py_range2_def upto.simps)
qed

theorem generate_positions_bounds_witness:
  "\<exists>ps. generate_positions 5 = Inr ps \<and> (0, - 1 / 2) \<in> set ps \<and>
        list_all (\<lambda>p. - (1 / 2) \<le> fst p \<and> fst p \<le> 1 / 2 \<and> - (1 / 2) \<le> snd p \<and> snd p \<le> 1 / 2) ps"
proof -
  have h: "(1::int) \<le> 5" by simp
  from generate_positions_bounds [OF h] obtain ps where
    run: "generate_positions 5 = Inr ps" and
    bnd: "\<forall>p \<in> set ps. - (1 / 2) \<le> fst p \<and> fst p \<le> 1 / 2 \<and> - (1 / 2) \<le> snd p \<and> snd p \<le> 1 / 2"
    by blast
  from run generate_positions_five have "(0, - 1 / 2) \<in> set ps" by auto
  moreover from bnd have
    "list_all (\<lambda>p. - (1 / 2) \<le> fst p \<and> fst p \<le> 1 / 2 \<and> - (1 / 2) \<le> snd p \<and> snd p \<le> 1 / 2) ps"
    by (simp only: list_all_iff)
  ultimately show ?thesis using run by blast
qed

text \<open>
  Claim C9 asks for an \<open>InvalidParameter\<close> error whenever \<open>n_stim \<le> 0\<close>. The source checks
  nothing: for \<open>n_stim = 0\<close> the call fails in the division \<^verbatim>\<open>n_stim / cols\<close>, with
  \<^verbatim>\<open>ZeroDivisionError\<close>, which is no parameter check.
\<close>

theorem generate_positions_zero_not_invalid_parameter:
  "\<not> (\<exists>e. generate_positions 0 = Inl e \<and> is_invalid_parameter e)"
  by (simp add: generate_positions_def is_invalid_parameter_def)

text \<open>
  Claim C9, as the source has it. \<^verbatim>\<open>generate_positions\<close> fails for every \<open>n_stim \<le> 0\<close>, with
  \<^verbatim>\<open>ValueError\<close> from \<^verbatim>\<open>math.sqrt\<close> below zero and with \<^verbatim>\<open>ZeroDivisionError\<close> at zero,
  never with the error of a parameter check; for every \<open>n_stim > 0\<close> it succeeds.
\<close>

theorem generate_positions_failures:
  "(n < 0 \<longrightarrow> generate_positions n = Inl ValueError) \<and>
   (n = 0 \<longrightarrow> generate_positions n = Inl ZeroDivisionError) \<and>
   (0 < n \<longrightarrow> (\<exists>ps. generate_positions n = Inr ps)) \<and>
   (\<forall>e. generate_positions n = Inl e \<longrightarrow> \<not> is_invalid_parameter e)"
proof -
  have neg: "generate_positions n = Inl ValueError" if "n < 0"
    using that by (simp add: generate_positions_def)
  have zero: "generate_positions n = Inl ZeroDivisionError" if "n = 0"
    using that by (simp add: generate_positions_def)
  have pos: "\<exists>ps. generate_positions n = Inr ps" if "0 < n"
  proof -
    from that have "1 \<le> n" by simp
    then show ?thesis using generate_positions_run by blast
  qed
  have kind: "\<not> is_invalid_parameter e" if "generate_positions n = Inl e" for e
  proof -
    consider "n < 0" | "n = 0" | "0 < n" by linarith
    then show ?thesis
    proof cases
      case 1
      with neg that show ?thesis by (simp add: is_invalid_parameter_def)
    next
      case 2
      with zero that show ?thesis by (simp add: is_invalid_parameter_def)
    next
      case 3
      with pos that show ?thesis by auto
    qed
  qed
  from neg zero pos kind show ?thesis by blast
qed

theorem generate_positions_failures_witness:
  "generate_positions (- 3) = Inl ValueError \<and>
   generate_positions 0 = Inl ZeroDivisionError \<and>
   (\<exists>ps. generate_positions 4 = Inr ps)"
  using generate_positions_failures [of "- 3"] generate_positions_failures [of 0]
    generate_positions_failures [of 4]
  by simp

end
